theory Spec2Isabelle
  imports Main "HOL-Library.Sublist" "HOL-Library.Multiset"
begin

chapter \<open>The program\<close>

section \<open>Values\<close>

text \<open>
  The program of \<^verbatim>\<open>src/App.jsx\<close> keeps its server list as plain JavaScript data that
  comes from \<^verbatim>\<open>JSON.parse\<close>, from the literal \<^verbatim>\<open>SEED_SERVERS\<close> and from object literals
  built by the program. Such data is a JSON value. Numbers are modelled as integers (the
  only numeric field, \<^verbatim>\<open>votes\<close>, is a count). An object is the list of its own
  properties. The result of reading a property is a \<open>json option\<close>, \<open>None\<close> being
  \<^verbatim>\<open>undefined\<close>; a property written with the value \<^verbatim>\<open>undefined\<close> reads the same as a
  missing one, and \<^verbatim>\<open>JSON.stringify\<close> leaves it out, so it is represented by absence.
\<close>

datatype json =
    JNull
  | JBool bool
  | JNum int
  | JStr string
  | JArr "json list"
  | JObj "(string \<times> json) list"

datatype error = TypeError | SyntaxError | SecurityError | InvalidJSON

text \<open>JavaScript truthiness of a value, \<open>None\<close> being \<^verbatim>\<open>undefined\<close>.\<close>

fun truthy :: "json option \<Rightarrow> bool" where
  "truthy None = False"
| "truthy (Some JNull) = False"
| "truthy (Some (JBool b)) = b"
| "truthy (Some (JNum n)) = (n \<noteq> 0)"
| "truthy (Some (JStr s)) = (s \<noteq> [])"
| "truthy (Some (JArr xs)) = True"
| "truthy (Some (JObj fs)) = True"

text \<open>\<^verbatim>\<open>a || b\<close> where \<open>b\<close> may be \<^verbatim>\<open>undefined\<close>, and \<^verbatim>\<open>a || d\<close> for a defined \<open>d\<close>.\<close>

definition or_opt :: "json option \<Rightarrow> json option \<Rightarrow> json option" where
  "or_opt a b = (if truthy a then a else b)"

fun orElse :: "json option \<Rightarrow> json \<Rightarrow> json" where
  "orElse None d = d"
| "orElse (Some v) d = (if truthy (Some v) then v else d)"

text \<open>
  \<^verbatim>\<open>s.k\<close> for one of the property names the program reads (\<^verbatim>\<open>id\<close>, \<^verbatim>\<open>name\<close>, \<^verbatim>\<open>url\<close>,
  \<^verbatim>\<open>tags\<close>, \<^verbatim>\<open>short\<close>, \<^verbatim>\<open>region\<close>, \<^verbatim>\<open>votes\<close>, \<^verbatim>\<open>source\<close>): an own property of an
  object, \<^verbatim>\<open>undefined\<close> on a number, string, boolean or array. On \<^verbatim>\<open>null\<close> the read
  throws a \<^verbatim>\<open>TypeError\<close>; the functions below test for it where the program reads a
  property of a value that may be \<^verbatim>\<open>null\<close>.
\<close>

fun field :: "json \<Rightarrow> string \<Rightarrow> json option" where
  "field (JObj fs) k = map_of fs k"
| "field v k = None"

text \<open>
  A value that is not an object or an array. Keys of a \<^verbatim>\<open>Map\<close> are compared with
  SameValueZero, which on such values is equality of the values; two objects are the same
  key only when they are the same object, which a value does not record. The results below
  that depend on key comparison are stated for keys that are scalar.
\<close>

fun scalar :: "json option \<Rightarrow> bool" where
  "scalar (Some (JArr xs)) = False"
| "scalar (Some (JObj fs)) = False"
| "scalar v = True"

section \<open>The Map of the platform\<close>

text \<open>
  A \<^verbatim>\<open>Map\<close> keeps its entries in insertion order; \<^verbatim>\<open>set\<close> on a key that is present
  replaces the value where the key stands, on a new key it appends. \<^verbatim>\<open>new Map(pairs)\<close>
  sets the pairs from left to right.
\<close>

type_synonym jsmap = "(json option \<times> json) list"

definition Map_has :: "jsmap \<Rightarrow> json option \<Rightarrow> bool" where
  "Map_has m k = (k \<in> set (map fst m))"

fun Map_set :: "json option \<Rightarrow> json \<Rightarrow> jsmap \<Rightarrow> jsmap" where
  "Map_set k v [] = [(k, v)]"
| "Map_set k v ((k', v') # m) = (if k' = k then (k, v) # m else (k', v') # Map_set k v m)"

definition new_Map :: "(json option \<times> json) list \<Rightarrow> jsmap" where
  "new_Map pairs = foldl (\<lambda>m (k, v). Map_set k v m) [] pairs"

definition Map_values :: "jsmap \<Rightarrow> json list" where
  "Map_values m = map snd m"

section \<open>Seed data and persistence\<close>

definition seed :: "string \<Rightarrow> string \<Rightarrow> string \<Rightarrow> string list \<Rightarrow> string \<Rightarrow> string \<Rightarrow> json" where
  "seed i n u ts sh src =
     JObj [(''id'', JStr i), (''name'', JStr n), (''url'', JStr u),
           (''tags'', JArr (map JStr ts)), (''short'', JStr sh), (''source'', JStr src)]"

definition SEED_SERVERS :: "json list" where
  "SEED_SERVERS =
    [ seed ''nexo'' ''NexoX'' ''wss://nexo-app.net''
        [''PvP'', ''Economy'', ''Minigames'', ''Survival'']
        ''Explore endless adventures.'' ''TopEaglerServers'',
      seed ''bedwetter'' ''Bedwetter'' ''wss://bedwetr.bytommy.uk''
        [''PvP'', ''Minigames'', ''Survival'']
        ''Bedwars by Tommy.'' ''TopEaglerServers'',
      seed ''brandor'' ''Lost At Brandor'' ''wss://31066.ddnod.es''
        [''PvP'', ''Minigames'']
        ''1.8.8 Eagler RPG.'' ''TopEaglerServers'',
      seed ''nobnot'' ''noBnoT Anarchy'' ''wss://eagler.noBnoT.org''
        [''Anarchy'', ''PvP'', ''Survival'']
        ''True anarchy.'' ''TopEaglerServers'',
      seed ''webmc'' ''WebMC'' ''wss://play.webmc.fun''
        [''PvP'', ''Economy'', ''Minigames'', ''Survival'', ''Creative'']
        ''Oneblock server.'' ''TopEaglerServers'',
      seed ''carrot'' ''CarrotCraft Network'' ''wss://eagler.carrot-craft.org''
        [''PvP'', ''Economy'', ''Survival'']
        ''Survival & Skyblock.'' ''TopEaglerServers'',
      seed ''cleverteaching'' ''xdmany4006MC (Clever Teaching)'' ''wss://clever-teaching.com''
        [''PvP'', ''Minigames'', ''Survival'', ''Creative'']
        ''Public hub.'' ''TopEaglerServers'',
      seed ''ricenetwork'' ''Rice Network x BallCraft'' ''wss://mc.ricenetwork.xyz''
        [''PvP'', ''Economy'', ''Minigames'']
        ''Diverse network.'' ''TopEaglerServers'',
      seed ''zentic'' ''Zentic'' ''wss://zentic.cc''
        [''PvP'', ''Minigames'', ''Practice'']
        ''Minemen for Eaglercraft.'' ''TopEaglerServers'',
      seed ''zelz'' ''ZelzNET'' ''wss://play.zelz.net''
        [''Minigames'', ''Survival'']
        ''Active development.'' ''TopEaglerServers'',
      seed ''arch'' ''ArchMC'' ''wss://arch.mc''
        [''PvP'', ''Minigames'', ''Survival'', ''Creative'', ''Other'']
        ''Popular mixed modes.'' ''servers.eaglercraft.com'',
      seed ''tuffnet'' ''TuffNET'' ''wss://play.tuff.tf''
        [''Survival'', ''PvP'', ''Other'']
        ''Cracked MC; any client.'' ''servers.eaglercraft.com'' ]"

definition STORAGE_KEY :: string where
  "STORAGE_KEY = ''eaglercraft-servers-v1''"

text \<open>
  A stored or uploaded text is described by what \<^verbatim>\<open>JSON.parse\<close> makes of it: the empty
  string (which is falsy), a text that \<^verbatim>\<open>JSON.parse\<close> rejects with a \<^verbatim>\<open>SyntaxError\<close>, or
  a text that denotes a JSON value. \<^verbatim>\<open>JSON.stringify\<close> of JSON data yields a text denoting
  that data.
\<close>

datatype rawtext = Empty | Malformed | Json json

fun JSON_parse :: "rawtext \<Rightarrow> error + json" where
  "JSON_parse (Json v) = Inr v"
| "JSON_parse t = Inl SyntaxError"

definition JSON_stringify :: "json \<Rightarrow> rawtext" where
  "JSON_stringify v = Json v"

text \<open>
  \<^verbatim>\<open>localStorage\<close>: either not accessible, so that \<^verbatim>\<open>getItem\<close> throws, or a table from
  keys to texts, \<^verbatim>\<open>getItem\<close> returning \<^verbatim>\<open>null\<close> (\<open>None\<close>) for a missing key.
\<close>

datatype storage = Unavailable | Storage "string \<Rightarrow> rawtext option"

fun getItem :: "storage \<Rightarrow> string \<Rightarrow> error + rawtext option" where
  "getItem Unavailable k = Inl SecurityError"
| "getItem (Storage t) k = Inr (t k)"

text \<open>\<^verbatim>\<open>xs.map((s) => [f(s), s])\<close> where \<open>f\<close> reads properties of \<open>s\<close>.\<close>

fun keyedBy :: "(json \<Rightarrow> json option) \<Rightarrow> json list \<Rightarrow> error + (json option \<times> json) list" where
  "keyedBy f [] = Inr []"
| "keyedBy f (s # ss) =
     (if s = JNull then Inl TypeError
      else case keyedBy f ss of Inl e \<Rightarrow> Inl e | Inr ps \<Rightarrow> Inr ((f s, s) # ps))"

definition idOf :: "json \<Rightarrow> json option" where
  "idOf s = field s ''id''"

text \<open>\<^verbatim>\<open>for (const s of SEED_SERVERS) if (!byId.has(s.id)) byId.set(s.id, s);\<close>\<close>

fun addSeeds :: "jsmap \<Rightarrow> json list \<Rightarrow> jsmap" where
  "addSeeds byId [] = byId"
| "addSeeds byId (s # ss) =
     addSeeds (if \<not> Map_has byId (idOf s) then Map_set (idOf s) s byId else byId) ss"

text \<open>The body of the \<^verbatim>\<open>try\<close> block of \<^verbatim>\<open>loadServers\<close>, an exception being \<open>Inl\<close>.\<close>

definition loadServers_try :: "storage \<Rightarrow> error + json list" where
  "loadServers_try st =
     (case getItem st STORAGE_KEY of
        Inl e \<Rightarrow> Inl e
      | Inr None \<Rightarrow> Inr SEED_SERVERS
      | Inr (Some Empty) \<Rightarrow> Inr SEED_SERVERS
      | Inr (Some raw) \<Rightarrow>
          (case JSON_parse raw of
             Inl e \<Rightarrow> Inl e
           | Inr (JArr parsed) \<Rightarrow>
               (case keyedBy idOf parsed of
                  Inl e \<Rightarrow> Inl e
                | Inr pairs \<Rightarrow> Inr (Map_values (addSeeds (new_Map pairs) SEED_SERVERS)))
           | Inr other \<Rightarrow> Inr SEED_SERVERS))"

text \<open>\<^verbatim>\<open>loadServers\<close>: the \<^verbatim>\<open>catch\<close> clause returns the seed list.\<close>

definition loadServers :: "storage \<Rightarrow> json list" where
  "loadServers st = (case loadServers_try st of Inl e \<Rightarrow> SEED_SERVERS | Inr servers \<Rightarrow> servers)"

section \<open>Adding and importing\<close>

text \<open>A natural number in decimal, as a template literal or a property index prints it.\<close>

definition digit :: "nat \<Rightarrow> char" where
  "digit n = ''0123456789'' ! (n mod 10)"

fun decimal :: "nat \<Rightarrow> string" where
  "decimal n = (if n < 10 then [digit n] else decimal (n div 10) @ [digit n])"

declare decimal.simps [simp del]

text \<open>
  \<^verbatim>\<open>{ ...newS }\<close>: the own enumerable properties of the operand; those of an array or
  a string are its indexed elements, other primitives and \<^verbatim>\<open>null\<close> have none.
\<close>

fun spread :: "json \<Rightarrow> json" where
  "spread (JObj fs) = JObj fs"
| "spread (JArr xs) = JObj (map (\<lambda>(i, x). (decimal i, x)) (enumerate 0 xs))"
| "spread (JStr s) = JObj (map (\<lambda>(i, c). (decimal i, JStr [c])) (enumerate 0 s))"
| "spread v = JObj []"

text \<open>\<^verbatim>\<open>addServer\<close>: \<^verbatim>\<open>setServers((prev) => [{ ...newS }, ...prev])\<close>.\<close>

definition addServer :: "json \<Rightarrow> json list \<Rightarrow> json list" where
  "addServer newS prev = spread newS # prev"

text \<open>
  \<^verbatim>\<open>String(v)\<close> on JSON data. An array is joined with commas, \<^verbatim>\<open>null\<close> elements giving the
  empty string. An object gives \<^verbatim>\<open>[object Object]\<close>, unless an own property hides
  \<^verbatim>\<open>Object.prototype.toString\<close>: parsed data holds no function, the conversion then finds
  nothing to call and throws a \<^verbatim>\<open>TypeError\<close>. Integers print in decimal (as JavaScript
  prints them below \<open>10\<^sup>2\<^sup>1\<close>).
\<close>

fun joinE :: "(error + string) list \<Rightarrow> error + string" where
  "joinE [] = Inr []"
| "joinE [x] = x"
| "joinE (x # y # ys) =
     (case x of Inl e \<Rightarrow> Inl e
      | Inr a \<Rightarrow> (case joinE (y # ys) of Inl e \<Rightarrow> Inl e | Inr b \<Rightarrow> Inr (a @ '','' @ b)))"

fun String_of :: "json \<Rightarrow> error + string" where
  "String_of JNull = Inr ''null''"
| "String_of (JBool b) = Inr (if b then ''true'' else ''false'')"
| "String_of (JNum n) = Inr (if n < 0 then ''-'' @ decimal (nat (- n)) else decimal (nat n))"
| "String_of (JStr s) = Inr s"
| "String_of (JArr xs) = joinE (map (\<lambda>x. if x = JNull then Inr [] else String_of x) xs)"
| "String_of (JObj fs) =
     (if ''toString'' \<in> set (map fst fs) then Inl TypeError else Inr ''[object Object]'')"

text \<open>\<^verbatim>\<open>/^wss:\/\//.test(u)\<close> on a string.\<close>

definition test_wss :: "string \<Rightarrow> bool" where
  "test_wss u = prefix ''wss://'' u"

text \<open>
  The object literal of the \<^verbatim>\<open>list.map\<close> callback of \<^verbatim>\<open>importList\<close>, for the record \<open>s\<close>
  at index \<open>i\<close>; \<open>now i\<close> is what \<^verbatim>\<open>Date.now()\<close> returns while that record is processed.
  The property \<^verbatim>\<open>votes\<close> is \<^verbatim>\<open>undefined\<close>, hence absent, unless the record's is a number.
\<close>

definition cleanRecord :: "(nat \<Rightarrow> nat) \<Rightarrow> nat \<Rightarrow> json \<Rightarrow> error + json" where
  "cleanRecord now i s =
     (if s = JNull then Inl TypeError
      else case String_of (orElse (or_opt (field s ''name'') (field s ''url'')) (JStr ''Unnamed'')) of
        Inl e \<Rightarrow> Inl e
      | Inr nm \<Rightarrow>
         (case String_of (orElse (field s ''url'') (JStr [])) of
            Inl e \<Rightarrow> Inl e
          | Inr u \<Rightarrow> Inr (JObj (
              [ (''id'', orElse (field s ''id'')
                          (JStr (''import-'' @ decimal (now i) @ ''-'' @ decimal i))),
                (''name'', JStr nm),
                (''url'', JStr u),
                (''tags'', JArr (case field s ''tags'' of
                                  Some (JArr ts) \<Rightarrow> filter (\<lambda>t. truthy (Some t)) ts
                                | _ \<Rightarrow> [])),
                (''short'', orElse (field s ''short'') (JStr [])),
                (''region'', orElse (field s ''region'') (JStr [])) ]
              @ (case field s ''votes'' of Some (JNum n) \<Rightarrow> [(''votes'', JNum n)] | _ \<Rightarrow> [])
              @ [ (''community'', JBool True),
                  (''source'', orElse (field s ''source'') (JStr ''import'')) ]))))"

fun mapIndexed :: "(nat \<Rightarrow> json \<Rightarrow> error + json) \<Rightarrow> nat \<Rightarrow> json list \<Rightarrow> error + json list" where
  "mapIndexed f i [] = Inr []"
| "mapIndexed f i (s # ss) =
     (case f i s of
        Inl e \<Rightarrow> Inl e
      | Inr c \<Rightarrow> (case mapIndexed f (Suc i) ss of Inl e \<Rightarrow> Inl e | Inr cs \<Rightarrow> Inr (c # cs)))"

text \<open>The \<^verbatim>\<open>url\<close> of a cleaned record is a string; the filter tests it.\<close>

definition urlOf :: "json \<Rightarrow> json option" where
  "urlOf s = field s ''url''"

definition wssAddress :: "json option \<Rightarrow> bool" where
  "wssAddress a = (case a of Some (JStr u) \<Rightarrow> test_wss u | _ \<Rightarrow> False)"

definition wssUrl :: "json \<Rightarrow> bool" where
  "wssUrl s = wssAddress (urlOf s)"

text \<open>\<^verbatim>\<open>cleaned\<close> of \<^verbatim>\<open>importList\<close>: \<^verbatim>\<open>list.map(...).filter((s) => /^wss:\/\//.test(s.url))\<close>.\<close>

definition cleaned :: "(nat \<Rightarrow> nat) \<Rightarrow> json list \<Rightarrow> error + json list" where
  "cleaned now list =
     (case mapIndexed (cleanRecord now) 0 list of
        Inl e \<Rightarrow> Inl e
      | Inr cs \<Rightarrow> Inr (filter wssUrl cs))"

text \<open>The merge key \<^verbatim>\<open>p.id || p.url\<close>.\<close>

definition keyOf :: "json \<Rightarrow> json option" where
  "keyOf p = or_opt (field p ''id'') (field p ''url'')"

text \<open>
  The updater passed to \<^verbatim>\<open>setServers\<close> by \<^verbatim>\<open>importList\<close>:
  \<^verbatim>\<open>byKey = new Map(prev.map((p) => [p.id || p.url, p]));\<close>
  \<^verbatim>\<open>for (const s of cleaned) byKey.set(s.id || s.url, s);\<close>
  \<^verbatim>\<open>return Array.from(byKey.values());\<close>
\<close>

fun setAll :: "jsmap \<Rightarrow> json list \<Rightarrow> error + jsmap" where
  "setAll byKey [] = Inr byKey"
| "setAll byKey (s # ss) =
     (if s = JNull then Inl TypeError else setAll (Map_set (keyOf s) s byKey) ss)"

definition mergeServers :: "json list \<Rightarrow> json list \<Rightarrow> error + json list" where
  "mergeServers prev cs =
     (case keyedBy keyOf prev of
        Inl e \<Rightarrow> Inl e
      | Inr pairs \<Rightarrow>
         (case setAll (new_Map pairs) cs of
            Inl e \<Rightarrow> Inl e
          | Inr byKey \<Rightarrow> Inr (Map_values byKey)))"

definition importList :: "(nat \<Rightarrow> nat) \<Rightarrow> json list \<Rightarrow> json list \<Rightarrow> error + json list" where
  "importList now list prev =
     (case cleaned now list of Inl e \<Rightarrow> Inl e | Inr cs \<Rightarrow> mergeServers prev cs)"

text \<open>
  The file input's handler in \<^verbatim>\<open>ImportExport\<close>: parse, require an array, call
  \<^verbatim>\<open>onImport\<close>, then show the toast \<^verbatim>\<open>Loaded ${parsed.length} servers.\<close>; any exception
  shows \<^verbatim>\<open>Import failed\<close> and leaves the servers as they were. The result is the new
  server list and the toast. (The updater throws only on a store that holds \<^verbatim>\<open>null\<close>,
  which no path of the program produces; the model treats that exception like the
  others.)
\<close>

datatype toast = Imported nat | ImportFailed error

definition onImportFile :: "(nat \<Rightarrow> nat) \<Rightarrow> rawtext \<Rightarrow> json list \<Rightarrow> json list \<times> toast" where
  "onImportFile now txt servers =
     (case JSON_parse txt of
        Inl e \<Rightarrow> (servers, ImportFailed e)
      | Inr (JArr parsed) \<Rightarrow>
         (case importList now parsed servers of
            Inl e \<Rightarrow> (servers, ImportFailed e)
          | Inr servers' \<Rightarrow> (servers', Imported (length parsed)))
      | Inr other \<Rightarrow> (servers, ImportFailed InvalidJSON))"

text \<open>
  The codec of the specification: \<open>encode\<close> is the export button's
  \<^verbatim>\<open>JSON.stringify(servers, null, 2)\<close>, \<open>decode\<close> is the handler's parse and array check
  followed by the sanitising step \<^verbatim>\<open>cleaned\<close>.
\<close>

definition encode :: "json list \<Rightarrow> rawtext" where
  "encode servers = JSON_stringify (JArr servers)"

definition decode :: "(nat \<Rightarrow> nat) \<Rightarrow> rawtext \<Rightarrow> error + json list" where
  "decode now txt =
     (case JSON_parse txt of
        Inl e \<Rightarrow> Inl e
      | Inr (JArr parsed) \<Rightarrow> cleaned now parsed
      | Inr other \<Rightarrow> Inl InvalidJSON)"

section \<open>The filtered view\<close>

text \<open>
  The view is computed from entries typed as the source's \<^verbatim>\<open>ServerItem\<close> declares them:
  \<^verbatim>\<open>id\<close>, \<^verbatim>\<open>name\<close>, \<^verbatim>\<open>url\<close> strings, \<^verbatim>\<open>tags\<close> a list of tag names (which the
  program reads with \<^verbatim>\<open>?.\<close>, so it may be missing), the other properties optional.
  Strings are lists of characters, and the case conversions act on the letters A to Z and
  a to z, which is what JavaScript does to text made of ASCII characters.
\<close>

record ServerItem =
  item_id :: string
  name :: string
  url :: string
  tags :: "string list option"
  short :: "string option"
  region :: "string option"
  votes :: "int option"
  community :: "bool option"
  source :: "string option"

definition lowerChar :: "char \<Rightarrow> char" where
  "lowerChar c = (let n = (of_char c :: nat) in if 65 \<le> n \<and> n \<le> 90 then char_of (n + 32) else c)"

definition upperChar :: "char \<Rightarrow> char" where
  "upperChar c = (let n = (of_char c :: nat) in if 97 \<le> n \<and> n \<le> 122 then char_of (n - 32) else c)"

definition toLowerCase :: "string \<Rightarrow> string" where
  "toLowerCase s = map lowerChar s"

definition toUpperCase :: "string \<Rightarrow> string" where
  "toUpperCase s = map upperChar s"

definition ascii :: "string \<Rightarrow> bool" where
  "ascii s = list_all (\<lambda>c. (of_char c :: nat) < 128) s"

text \<open>
  \<^verbatim>\<open>(s.name + " " + s.url).toLowerCase().includes(q.toLowerCase())\<close>, where
  \<^verbatim>\<open>hay.includes(needle)\<close> holds when the needle starts at some position of the haystack.
\<close>

fun includes_str :: "string \<Rightarrow> string \<Rightarrow> bool" where
  "includes_str [] needle = (needle = [])"
| "includes_str (c # cs) needle = (prefix needle (c # cs) \<or> includes_str cs needle)"

definition matchesQ :: "ServerItem \<Rightarrow> string \<Rightarrow> bool" where
  "matchesQ s q = includes_str (toLowerCase (name s @ '' '' @ url s)) (toLowerCase q)"

text \<open>\<^verbatim>\<open>selected.length === 0 || selected.every((t) => s.tags?.includes(t))\<close>.\<close>

definition matchesTags :: "ServerItem \<Rightarrow> string list \<Rightarrow> bool" where
  "matchesTags s selected =
     (length selected = 0
      \<or> list_all (\<lambda>t. case tags s of None \<Rightarrow> False | Some ts \<Rightarrow> t \<in> set ts) selected)"

text \<open>
  \<^verbatim>\<open>Array.prototype.sort\<close> with a comparator is stable: it places \<open>a\<close> before \<open>b\<close> when
  \<open>cmp a b < 0\<close>, after it when \<open>cmp a b > 0\<close>, and keeps the input order of the two
  otherwise. For a consistent comparator that result is unique, and insertion from the
  right computes it.
\<close>

fun insertBy :: "('a \<Rightarrow> 'a \<Rightarrow> int) \<Rightarrow> 'a \<Rightarrow> 'a list \<Rightarrow> 'a list" where
  "insertBy cmp x [] = [x]"
| "insertBy cmp x (y # ys) = (if cmp x y \<le> 0 then x # y # ys else y # insertBy cmp x ys)"

definition sortBy :: "('a \<Rightarrow> 'a \<Rightarrow> int) \<Rightarrow> 'a list \<Rightarrow> 'a list" where
  "sortBy cmp xs = foldr (insertBy cmp) xs []"

text \<open>\<^verbatim>\<open>s.votes || 0\<close> and \<^verbatim>\<open>s.source || "zzz"\<close>.\<close>

definition votesOr0 :: "ServerItem \<Rightarrow> int" where
  "votesOr0 s = (case votes s of None \<Rightarrow> 0 | Some v \<Rightarrow> if v \<noteq> 0 then v else 0)"

definition sourceOrZzz :: "ServerItem \<Rightarrow> string" where
  "sourceOrZzz s = (case source s of None \<Rightarrow> ''zzz'' | Some l \<Rightarrow> if l \<noteq> [] then l else ''zzz'')"

text \<open>
  \<^verbatim>\<open>filtered\<close>, with the state \<open>servers\<close>, \<open>q\<close>, \<open>selected\<close>, \<open>sort\<close> (here \<open>sortKey\<close>) it is
  computed from.
  \<^verbatim>\<open>localeCompare\<close> depends on the locale of the platform and is a parameter.
\<close>

definition filtered ::
  "(string \<Rightarrow> string \<Rightarrow> int) \<Rightarrow> ServerItem list \<Rightarrow> string \<Rightarrow> string list \<Rightarrow> string \<Rightarrow> ServerItem list" where
  "filtered localeCompare servers q selected sortKey =
     (let out = filter (\<lambda>s. matchesQ s q \<and> matchesTags s selected) servers
      in if sortKey = ''name'' then sortBy (\<lambda>a b. localeCompare (name a) (name b)) out
         else if sortKey = ''votes'' then sortBy (\<lambda>a b. votesOr0 b - votesOr0 a) out
         else if sortKey = ''source'' then sortBy (\<lambda>a b. localeCompare (sourceOrZzz a) (sourceOrZzz b)) out
         else out)"

section \<open>The quick status check\<close>

text \<open>
  One invocation of \<^verbatim>\<open>quickPing\<close>. Its state is the latch \<^verbatim>\<open>done\<close>, whether the timer is
  still pending (set and neither fired nor cleared), whether the socket exists with its
  two handlers installed, how often \<^verbatim>\<open>ws.close()\<close> was called, the status toasts shown so
  far and \<^verbatim>\<open>pingingId\<close>. The platform delivers \<^verbatim>\<open>open\<close> and \<^verbatim>\<open>error\<close> only to installed
  handlers and fires only a pending timer.
\<close>

datatype status = Online | Unreachable | TimedOut | ConstructionFailed

datatype event = Open | Error | TimerFired

record ping =
  done_latch :: bool
  timerPending :: bool
  handlers :: bool
  closes :: nat
  toasts :: "status list"
  pingingId :: "json option option"

text \<open>
  The synchronous part: \<^verbatim>\<open>setPingingId(s.id)\<close>, \<^verbatim>\<open>setTimeout\<close>, then either
  \<^verbatim>\<open>new WebSocket(s.url)\<close> succeeds and the handlers are installed, or it throws and the
  \<^verbatim>\<open>catch\<close> clause clears the timer and shows the exception. Whether the constructor throws
  is decided by the platform: \<open>constructs\<close>.
\<close>

definition quickPing :: "bool \<Rightarrow> json \<Rightarrow> ping" where
  "quickPing constructs s =
     (if constructs
      then \<lparr> done_latch = False, timerPending = True, handlers = True, closes = 0,
             toasts = [], pingingId = Some (idOf s) \<rparr>
      else \<lparr> done_latch = False, timerPending = False, handlers = False, closes = 0,
             toasts = [ConstructionFailed], pingingId = None \<rparr>)"

text \<open>The three callbacks.\<close>

fun deliver :: "ping \<Rightarrow> event \<Rightarrow> ping" where
  "deliver p Open =
     (if \<not> handlers p \<or> done_latch p then p
      else p \<lparr> done_latch := True, timerPending := False, toasts := toasts p @ [Online],
               closes := Suc (closes p), pingingId := None \<rparr>)"
| "deliver p Error =
     (if \<not> handlers p \<or> done_latch p then p
      else p \<lparr> done_latch := True, timerPending := False, toasts := toasts p @ [Unreachable],
               pingingId := None \<rparr>)"
| "deliver p TimerFired =
     (if \<not> timerPending p then p
      else if done_latch p then p \<lparr> timerPending := False \<rparr>
      else p \<lparr> timerPending := False, done_latch := True, closes := Suc (closes p),
               toasts := toasts p @ [TimedOut], pingingId := None \<rparr>)"

definition run :: "ping \<Rightarrow> event list \<Rightarrow> ping" where
  "run p evs = foldl deliver p evs"

fun outcome :: "event \<Rightarrow> status" where
  "outcome Open = Online"
| "outcome Error = Unreachable"
| "outcome TimerFired = TimedOut"

text \<open>
  A check is settled when no callback can act any more: the timer is not pending, and
  the handlers are latched or were never installed.
\<close>

definition settled :: "ping \<Rightarrow> bool" where
  "settled p = ((done_latch p \<or> \<not> handlers p) \<and> \<not> timerPending p)"

section \<open>Looking entries up by key\<close>

text \<open>
  The vocabulary of the properties: the list \<open>xs\<close> read as a table under the key \<open>f\<close>,
  the first or the last entry of a key winning, and lists whose ids or merge keys are
  scalar.
\<close>

definition keyed :: "(json \<Rightarrow> json option) \<Rightarrow> json list \<Rightarrow> (json option \<times> json) list" where
  "keyed f xs = map (\<lambda>s. (f s, s)) xs"

definition firstBy :: "(json \<Rightarrow> json option) \<Rightarrow> json list \<Rightarrow> json option \<Rightarrow> json option" where
  "firstBy f xs = map_of (keyed f xs)"

definition lastBy :: "(json \<Rightarrow> json option) \<Rightarrow> json list \<Rightarrow> json option \<Rightarrow> json option" where
  "lastBy f xs = map_of (keyed f (rev xs))"

definition scalarIds :: "json list \<Rightarrow> bool" where
  "scalarIds xs = list_all (\<lambda>e. scalar (idOf e)) xs"

definition scalarKeys :: "json list \<Rightarrow> bool" where
  "scalarKeys xs = list_all (\<lambda>e. scalar (keyOf e)) xs"

text \<open>Setting a list of pairs one after the other.\<close>

definition setPairs :: "jsmap \<Rightarrow> (json option \<times> json) list \<Rightarrow> jsmap" where
  "setPairs m pairs = foldl (\<lambda>m (k, v). Map_set k v m) m pairs"

text \<open>The table that the updater of \<^verbatim>\<open>importList\<close> builds when nothing throws.\<close>

definition mergedTable :: "json list \<Rightarrow> json list \<Rightarrow> jsmap" where
  "mergedTable prev cs = setPairs (new_Map (keyed keyOf prev)) (keyed keyOf cs)"

text \<open>An entry whose name and address are strings, as \<^verbatim>\<open>ServerItem\<close> declares them.\<close>

definition typedEntry :: "json \<Rightarrow> bool" where
  "typedEntry e = ((case field e ''name'' of Some (JStr n) \<Rightarrow> True | _ \<Rightarrow> False)
                  \<and> (case urlOf e of Some (JStr u) \<Rightarrow> True | _ \<Rightarrow> False))"

text \<open>The entries that pass both filters of \<^verbatim>\<open>filtered\<close>, in the order of the store.\<close>

definition candidates :: "ServerItem list \<Rightarrow> string \<Rightarrow> string list \<Rightarrow> ServerItem list" where
  "candidates servers q selected = filter (\<lambda>s. matchesQ s q \<and> matchesTags s selected) servers"

text \<open>A record is an object.\<close>

fun isRecord :: "json \<Rightarrow> bool" where
  "isRecord (JObj fs) = True"
| "isRecord v = False"

section \<open>Example data\<close>

text \<open>
  Concrete inputs at which the properties below are instantiated: a storage that holds an
  array under the program's key and nothing else, a clock, a comparison of strings, and
  entries.
\<close>

definition stored :: "json list \<Rightarrow> storage" where
  "stored xs = Storage (\<lambda>k. if k = STORAGE_KEY then Some (Json (JArr xs)) else None)"

definition ex_clock :: "nat \<Rightarrow> nat" where
  "ex_clock i = 1700"

definition ex_compare :: "string \<Rightarrow> string \<Rightarrow> int" where
  "ex_compare a b = 0"

definition ex_mine :: json where
  "ex_mine = JObj [(''id'', JStr ''nexo''), (''name'', JStr ''Mine''), (''url'', JStr ''wss://mine.example'')]"

definition ex_old :: json where
  "ex_old = JObj [(''id'', JStr ''x1''), (''name'', JStr ''Old''), (''url'', JStr ''ftp://old.example'')]"

definition ex_noid_a :: json where
  "ex_noid_a = JObj [(''name'', JStr ''A''), (''url'', JStr ''ftp://a.example'')]"

definition ex_noid_b :: json where
  "ex_noid_b = JObj [(''name'', JStr ''B''), (''url'', JStr ''ftp://b.example'')]"

definition ex_x1 :: json where
  "ex_x1 = JObj [(''id'', JStr ''x1''), (''name'', JStr ''New''), (''url'', JStr ''wss://new.example''),
                 (''tags'', JArr []), (''short'', JStr []), (''region'', JStr []),
                 (''community'', JBool True), (''source'', JStr ''import'')]"

definition ex_x1_later :: json where
  "ex_x1_later = JObj [(''id'', JStr ''x1''), (''name'', JStr ''Newer''), (''url'', JStr ''wss://newer.example''),
                 (''tags'', JArr []), (''short'', JStr []), (''region'', JStr []),
                 (''community'', JBool True), (''source'', JStr ''import'')]"

definition ex_custom :: json where
  "ex_custom = JObj [(''id'', JStr ''custom-1700''), (''name'', JStr ''Mine''),
                     (''url'', JStr ''wss://mine.example''), (''tags'', JArr []),
                     (''short'', JStr []), (''community'', JBool True)]"

definition ex_bad :: json where
  "ex_bad = JObj [(''name'', JStr ''Bad''), (''url'', JStr ''ftp://nope'')]"

definition ex_nexo :: ServerItem where
  "ex_nexo = \<lparr> item_id = ''nexo'', name = ''NexoX'', url = ''wss://nexo-app.net'',
               tags = Some [''PvP'', ''Economy'', ''Minigames'', ''Survival''],
               short = Some ''Explore endless adventures.'', region = None, votes = None,
               community = None, source = Some ''TopEaglerServers'' \<rparr>"

definition ex_voted :: "string \<Rightarrow> int \<Rightarrow> ServerItem" where
  "ex_voted n v = \<lparr> item_id = n, name = n, url = ''wss://'' @ n, tags = Some [], short = None,
                    region = None, votes = Some v, community = Some True, source = None \<rparr>"

chapter \<open>Properties\<close>

section \<open>The Map\<close>

lemma Map_set_lookup: "map_of (Map_set k v m) = (map_of m)(k \<mapsto> v)"
  by (induction m) (auto simp: fun_eq_iff)

lemma Map_set_keys:
  "map fst (Map_set k v m) = (if k \<in> set (map fst m) then map fst m else map fst m @ [k])"
  by (induction m) force+

lemma Map_set_distinct: "distinct (map fst m) \<Longrightarrow> distinct (map fst (Map_set k v m))"
  by (simp add: Map_set_keys)

lemma Map_set_fresh: "k \<notin> set (map fst m) \<Longrightarrow> Map_set k v m = m @ [(k, v)]"
  by (induction m) auto

lemma Map_set_subset: "set (Map_set k v m) \<subseteq> insert (k, v) (set m)"
  by (induction m) (auto split: if_splits)

lemma setPairs_Nil: "setPairs m [] = m"
  by (simp add: setPairs_def)

lemma setPairs_Cons: "setPairs m ((k, v) # ps) = setPairs (Map_set k v m) ps"
  by (simp add: setPairs_def)

lemma new_Map_setPairs: "new_Map pairs = setPairs [] pairs"
  by (simp add: new_Map_def setPairs_def)

lemma setPairs_lookup: "map_of (setPairs m ps) = map_of m ++ map_of (rev ps)"
proof (induction ps arbitrary: m)
  case Nil
  show ?case by (simp add: setPairs_Nil)
next
  case (Cons p ps)
  obtain k v where p: "p = (k, v)" by (cases p)
  have "map_of (setPairs m (p # ps)) = (map_of m)(k \<mapsto> v) ++ map_of (rev ps)"
    unfolding p setPairs_Cons Cons.IH Map_set_lookup ..
  also have "\<dots> = map_of m ++ map_of (rev (p # ps))"
    by (auto simp: p fun_eq_iff map_add_def split: option.splits)
  finally show ?case .
qed

lemma setPairs_distinct: "distinct (map fst m) \<Longrightarrow> distinct (map fst (setPairs m ps))"
proof (induction ps arbitrary: m)
  case Nil
  then show ?case by (simp add: setPairs_Nil)
next
  case (Cons p ps)
  obtain k v where p: "p = (k, v)" by (cases p)
  show ?case unfolding p setPairs_Cons
    by (rule Cons.IH) (rule Map_set_distinct [OF Cons.prems])
qed

lemma setPairs_subset: "set (setPairs m ps) \<subseteq> set m \<union> set ps"
proof (induction ps arbitrary: m)
  case Nil
  show ?case by (simp add: setPairs_Nil)
next
  case (Cons p ps)
  obtain k v where p: "p = (k, v)" by (cases p)
  have "set (setPairs (Map_set k v m) ps) \<subseteq> set (Map_set k v m) \<union> set ps"
    by (rule Cons.IH)
  with Map_set_subset [of k v m] show ?case unfolding p setPairs_Cons by auto
qed

lemma setPairs_keys_present:
  "fst ` set ps \<subseteq> set (map fst m) \<Longrightarrow> map fst (setPairs m ps) = map fst m"
proof (induction ps arbitrary: m)
  case Nil
  show ?case by (simp add: setPairs_Nil)
next
  case (Cons p ps)
  obtain k v where p: "p = (k, v)" by (cases p)
  from Cons.prems have k: "k \<in> set (map fst m)" and r: "fst ` set ps \<subseteq> set (map fst m)"
    by (auto simp: p)
  have keys: "map fst (Map_set k v m) = map fst m" using k by (simp add: Map_set_keys)
  have "map fst (setPairs (Map_set k v m) ps) = map fst (Map_set k v m)"
    by (rule Cons.IH) (use r in \<open>simp add: keys\<close>)
  then show ?case unfolding p setPairs_Cons keys .
qed

lemma setPairs_fresh:
  "distinct (map fst ps) \<Longrightarrow> set (map fst ps) \<inter> set (map fst m) = {} \<Longrightarrow> setPairs m ps = m @ ps"
proof (induction ps arbitrary: m)
  case Nil
  show ?case by (simp add: setPairs_Nil)
next
  case (Cons p ps)
  obtain k v where p: "p = (k, v)" by (cases p)
  from Cons.prems have k: "k \<notin> set (map fst m)" by (auto simp: p)
  have m': "Map_set k v m = m @ [(k, v)]" by (rule Map_set_fresh [OF k])
  have "setPairs (m @ [(k, v)]) ps = (m @ [(k, v)]) @ ps"
    by (rule Cons.IH) (use Cons.prems in \<open>auto simp: p\<close>)
  then show ?case unfolding p setPairs_Cons m' by simp
qed

lemma new_Map_distinct_id: "distinct (map fst ps) \<Longrightarrow> new_Map ps = ps"
  using setPairs_fresh [of ps "[]"] by (simp add: new_Map_setPairs)

lemma table_eqI:
  "map fst m1 = map fst m2 \<Longrightarrow> distinct (map fst m1) \<Longrightarrow> map_of m1 = map_of m2 \<Longrightarrow> m1 = m2"
proof (induction m1 arbitrary: m2)
  case Nil
  then show ?case by simp
next
  case (Cons p m1)
  from Cons.prems(1) obtain q r where m2: "m2 = q # r" by (cases m2) auto
  obtain k v where p: "p = (k, v)" by (cases p)
  obtain k' v' where q: "q = (k', v')" by (cases q)
  from Cons.prems(1) have kk: "k' = k" and keys: "map fst m1 = map fst r" by (simp_all add: m2 p q)
  from Cons.prems(2) have kn: "k \<notin> set (map fst m1)" and d: "distinct (map fst m1)" by (simp_all add: p)
  have "map_of (p # m1) k = map_of m2 k" by (simp only: Cons.prems(3))
  then have vv: "v' = v" by (simp add: m2 p q kk)
  have "map_of m1 x = map_of r x" for x
  proof (cases "x = k")
    case True
    from kn have "map_of m1 k = None" by (simp add: map_of_eq_None_iff)
    moreover from kn keys have "map_of r k = None" by (simp add: map_of_eq_None_iff)
    ultimately show ?thesis using True by simp
  next
    case False
    have "map_of (p # m1) x = map_of m2 x" by (simp only: Cons.prems(3))
    with False show ?thesis by (simp add: m2 p q kk)
  qed
  then have "map_of m1 = map_of r" by (simp add: fun_eq_iff)
  with Cons.IH [OF keys d] have "m1 = r" .
  then show ?case by (simp add: m2 p q kk vv)
qed

section \<open>Tables keyed by a property\<close>

lemma keyedBy_eq: "keyedBy f xs = (if JNull \<in> set xs then Inl TypeError else Inr (keyed f xs))"
  by (induction xs) (auto simp: keyed_def)

lemma keyed_rev: "keyed f (rev xs) = rev (keyed f xs)"
  by (simp add: keyed_def rev_map)

lemma keyed_fst: "map fst (keyed f xs) = map f xs"
  by (simp add: keyed_def comp_def)

lemma keyed_snd: "map snd (keyed f xs) = xs"
  by (simp add: keyed_def comp_def)

lemma keyed_agree: "\<forall>p \<in> set (keyed f xs). fst p = f (snd p)"
  by (auto simp: keyed_def)

lemma agree_keyed: "\<forall>p \<in> set m. fst p = f (snd p) \<Longrightarrow> keyed f (map snd m) = m"
  by (induction m) (auto simp: keyed_def)

lemma new_Map_lookup: "map_of (new_Map (keyed f xs)) = lastBy f xs"
  by (simp add: new_Map_setPairs setPairs_lookup lastBy_def keyed_rev)

lemma new_Map_distinct: "distinct (map fst (new_Map ps))"
  by (simp add: new_Map_setPairs setPairs_distinct)

lemma new_Map_agree: "\<forall>p \<in> set (new_Map (keyed f xs)). fst p = f (snd p)"
  using setPairs_subset [of "[]" "keyed f xs"] keyed_agree [of f xs]
  by (auto simp: new_Map_setPairs)

section \<open>Loading\<close>

lemma addSeeds_lookup: "map_of (addSeeds m ss) = map_of (keyed idOf ss) ++ map_of m"
proof (induction ss arbitrary: m)
  case Nil
  show ?case by (simp add: keyed_def)
next
  case (Cons s ss)
  show ?case
  proof (cases "Map_has m (idOf s)")
    case True
    then obtain v where v: "map_of m (idOf s) = Some v"
      by (auto simp: Map_has_def dest: weak_map_of_SomeI)
    have "map_of (addSeeds m (s # ss)) = map_of (keyed idOf ss) ++ map_of m"
      using True Cons.IH by simp
    also have "\<dots> = map_of (keyed idOf (s # ss)) ++ map_of m"
      using v by (auto simp: keyed_def fun_eq_iff map_add_def split: option.splits)
    finally show ?thesis .
  next
    case False
    then have n: "map_of m (idOf s) = None"
      by (simp add: Map_has_def map_of_eq_None_iff)
    have step: "addSeeds m (s # ss) = addSeeds (Map_set (idOf s) s m) ss"
      using False by simp
    have "map_of (addSeeds m (s # ss)) = map_of (keyed idOf ss) ++ (map_of m)(idOf s \<mapsto> s)"
      unfolding step Cons.IH Map_set_lookup ..
    also have "\<dots> = map_of (keyed idOf (s # ss)) ++ map_of m"
      using n by (auto simp: keyed_def fun_eq_iff map_add_def split: option.splits)
    finally show ?thesis .
  qed
qed

lemma addSeeds_distinct: "distinct (map fst m) \<Longrightarrow> distinct (map fst (addSeeds m ss))"
  by (induction ss arbitrary: m) (simp_all add: Map_set_distinct)

lemma addSeeds_agree:
  "\<forall>p \<in> set m. fst p = idOf (snd p) \<Longrightarrow> \<forall>p \<in> set (addSeeds m ss). fst p = idOf (snd p)"
proof (induction ss arbitrary: m)
  case Nil
  then show ?case by simp
next
  case (Cons s ss)
  have "\<forall>p \<in> set (Map_set (idOf s) s m). fst p = idOf (snd p)"
    using Cons.prems Map_set_subset [of "idOf s" s m] by auto
  with Cons.prems Cons.IH show ?case by simp
qed

lemma addSeeds_set:
  "distinct (map idOf ss) \<Longrightarrow>
   set (addSeeds m ss) = set m \<union> {(idOf s, s) | s. s \<in> set ss \<and> idOf s \<notin> set (map fst m)}"
proof (induction ss arbitrary: m)
  case Nil
  show ?case by simp
next
  case (Cons s ss)
  from Cons.prems have fresh: "\<forall>s' \<in> set ss. idOf s' \<noteq> idOf s" and d: "distinct (map idOf ss)"
    by (auto simp: image_iff)
  show ?case
  proof (cases "Map_has m (idOf s)")
    case True
    then have "set (addSeeds m (s # ss)) =
        set m \<union> {(idOf s', s') | s'. s' \<in> set ss \<and> idOf s' \<notin> set (map fst m)}"
      using Cons.IH [OF d] by simp
    with True show ?thesis by (auto simp: Map_has_def)
  next
    case False
    then have k: "idOf s \<notin> set (map fst m)" by (simp add: Map_has_def)
    have "set (addSeeds m (s # ss)) = set (m @ [(idOf s, s)]) \<union>
        {(idOf s', s') | s'. s' \<in> set ss \<and> idOf s' \<notin> set (map fst (m @ [(idOf s, s)]))}"
      using False Cons.IH [OF d, of "m @ [(idOf s, s)]"] by (simp add: Map_set_fresh [OF k])
    with k fresh show ?thesis by auto
  qed
qed

text \<open>What \<^verbatim>\<open>loadServers\<close> returns for a stored array without \<^verbatim>\<open>null\<close> elements.\<close>

lemma loadServers_array:
  assumes "t STORAGE_KEY = Some (Json (JArr E1))" and "JNull \<notin> set E1"
  shows "loadServers (Storage t) =
           Map_values (addSeeds (new_Map (keyed idOf E1)) SEED_SERVERS)"
  using assms by (simp add: loadServers_def loadServers_try_def keyedBy_eq)

lemma loaded_table:
  assumes "t STORAGE_KEY = Some (Json (JArr E1))" and "JNull \<notin> set E1"
  defines "m \<equiv> addSeeds (new_Map (keyed idOf E1)) SEED_SERVERS"
  shows "keyed idOf (loadServers (Storage t)) = m"
    and "distinct (map fst m)"
    and "map_of m = firstBy idOf SEED_SERVERS ++ lastBy idOf E1"
proof -
  have agree: "\<forall>p \<in> set m. fst p = idOf (snd p)"
    unfolding m_def by (rule addSeeds_agree) (rule new_Map_agree)
  show "keyed idOf (loadServers (Storage t)) = m"
    using agree_keyed [OF agree] loadServers_array [of t E1] assms(1,2)
    by (simp add: Map_values_def m_def)
  show "distinct (map fst m)"
    unfolding m_def by (rule addSeeds_distinct) (rule new_Map_distinct)
  show "map_of m = firstBy idOf SEED_SERVERS ++ lastBy idOf E1"
    unfolding m_def by (simp add: addSeeds_lookup new_Map_lookup firstBy_def)
qed

lemma seed_not_null: "JNull \<notin> set SEED_SERVERS"
  by (simp add: SEED_SERVERS_def seed_def)

lemma seed_ids_distinct: "distinct (map idOf SEED_SERVERS)"
  by (simp add: SEED_SERVERS_def seed_def idOf_def)

lemma loadServers_distinct_array:
  assumes "t STORAGE_KEY = Some (Json (JArr E1))" and "JNull \<notin> set E1"
  shows "distinct (map idOf (loadServers (Storage t)))"
proof -
  have "map fst (keyed idOf (loadServers (Storage t))) = map idOf (loadServers (Storage t))"
    by (rule keyed_fst)
  with loaded_table(1,2) [of t E1] assms show ?thesis by simp
qed

lemma loadServers_lookup:
  assumes "t STORAGE_KEY = Some (Json (JArr E1))" and "JNull \<notin> set E1"
  shows "firstBy idOf (loadServers (Storage t)) = firstBy idOf SEED_SERVERS ++ lastBy idOf E1"
  using loaded_table(1,3) [of t E1] assms by (simp add: firstBy_def)

text \<open>Every path of \<^verbatim>\<open>loadServers\<close> that does not build the table returns the seed list.\<close>

lemma loadServers_cases:
  "loadServers st = SEED_SERVERS \<or>
   (\<exists>t E1. st = Storage t \<and> t STORAGE_KEY = Some (Json (JArr E1)) \<and> JNull \<notin> set E1)"
proof (cases st)
  case Unavailable
  then show ?thesis by (simp add: loadServers_def loadServers_try_def)
next
  case (Storage t)
  show ?thesis
  proof (cases "t STORAGE_KEY")
    case None
    with Storage show ?thesis by (simp add: loadServers_def loadServers_try_def)
  next
    case (Some raw)
    show ?thesis
    proof (cases raw)
      case Empty
      with Storage Some show ?thesis by (simp add: loadServers_def loadServers_try_def)
    next
      case Malformed
      with Storage Some show ?thesis by (simp add: loadServers_def loadServers_try_def)
    next
      case (Json v)
      with Storage Some show ?thesis
        by (cases v) (simp_all add: loadServers_def loadServers_try_def keyedBy_eq)
    qed
  qed
qed

lemma seed_ids_loaded: "set (map idOf SEED_SERVERS) \<subseteq> set (map idOf (loadServers st))"
proof (rule disjE [OF loadServers_cases [of st]])
  assume "loadServers st = SEED_SERVERS"
  then show ?thesis by simp
next
  assume "\<exists>t E1. st = Storage t \<and> t STORAGE_KEY = Some (Json (JArr E1)) \<and> JNull \<notin> set E1"
  then obtain t E1 where st: "st = Storage t" and t: "t STORAGE_KEY = Some (Json (JArr E1))"
    and n: "JNull \<notin> set E1" by blast
  have look: "firstBy idOf (loadServers st) = firstBy idOf SEED_SERVERS ++ lastBy idOf E1"
    unfolding st using t n by (rule loadServers_lookup)
  show ?thesis
  proof
    fix k assume "k \<in> set (map idOf SEED_SERVERS)"
    then have "k \<in> dom (firstBy idOf SEED_SERVERS)"
      by (simp add: firstBy_def dom_map_of_conv_image_fst keyed_def image_image)
    then have "k \<in> dom (firstBy idOf (loadServers st))" by (simp add: look)
    then show "k \<in> set (map idOf (loadServers st))"
      by (simp add: firstBy_def dom_map_of_conv_image_fst keyed_def image_image)
  qed
qed

lemma lookup_member:
  "firstBy f xs k = Some e \<Longrightarrow> e \<in> set xs"
  by (auto simp: firstBy_def keyed_def dest: map_of_SomeD)

lemma loadServers_set:
  assumes t: "t STORAGE_KEY = Some (Json (JArr E1))" and n: "JNull \<notin> set E1"
    and d: "distinct (map idOf E1)"
  shows "set (loadServers (Storage t)) =
           set E1 \<union> {s \<in> set SEED_SERVERS. idOf s \<notin> set (map idOf E1)}"
proof -
  have m0: "new_Map (keyed idOf E1) = keyed idOf E1"
    by (rule new_Map_distinct_id) (simp add: keyed_fst d)
  have "set (addSeeds (keyed idOf E1) SEED_SERVERS) =
      set (keyed idOf E1) \<union>
      {(idOf s, s) | s. s \<in> set SEED_SERVERS \<and> idOf s \<notin> set (map fst (keyed idOf E1))}"
    by (rule addSeeds_set [OF seed_ids_distinct])
  then have "snd ` set (addSeeds (keyed idOf E1) SEED_SERVERS) =
      set E1 \<union> {s \<in> set SEED_SERVERS. idOf s \<notin> set (map idOf E1)}"
    by (force simp: keyed_def image_Un image_iff)
  then show ?thesis
    using loadServers_array [of t E1] t n by (simp add: m0 Map_values_def)
qed

text \<open>
  Claim C1. Whatever is stored, every seed id occurs in the list that \<^verbatim>\<open>loadServers\<close>
  returns. When the stored text is an array \<open>E1\<close> of entries, the returned list read by
  id is the seed list read by id, overridden by \<open>E1\<close> read by id: an id of \<open>E1\<close> yields
  the entry of \<open>E1\<close> (the last one, should \<open>E1\<close> repeat the id), also where a seed has
  that id, and any other id yields the seed. No id occurs twice in the returned list, and
  for \<open>E1\<close> without repeated ids the returned entries are those of \<open>E1\<close> and the seeds
  whose id is not in \<open>E1\<close>.
\<close>

theorem loadServers_union_by_id:
  "set (map idOf SEED_SERVERS) \<subseteq> set (map idOf (loadServers st))
   \<and> (t STORAGE_KEY = Some (Json (JArr E1)) \<and> JNull \<notin> set E1 \<and> scalarIds E1 \<longrightarrow>
        firstBy idOf (loadServers (Storage t)) = firstBy idOf SEED_SERVERS ++ lastBy idOf E1
        \<and> (\<forall>k e. lastBy idOf E1 k = Some e \<longrightarrow> firstBy idOf (loadServers (Storage t)) k = Some e)
        \<and> distinct (map idOf (loadServers (Storage t)))
        \<and> (distinct (map idOf E1) \<longrightarrow>
             set (loadServers (Storage t)) =
               set E1 \<union> {s \<in> set SEED_SERVERS. idOf s \<notin> set (map idOf E1)}))"
proof (intro conjI impI allI)
  show "set (map idOf SEED_SERVERS) \<subseteq> set (map idOf (loadServers st))"
    by (rule seed_ids_loaded)
next
  assume "t STORAGE_KEY = Some (Json (JArr E1)) \<and> JNull \<notin> set E1 \<and> scalarIds E1"
  then show "firstBy idOf (loadServers (Storage t)) = firstBy idOf SEED_SERVERS ++ lastBy idOf E1"
    using loadServers_lookup [of t E1] by blast
next
  fix k e
  assume "t STORAGE_KEY = Some (Json (JArr E1)) \<and> JNull \<notin> set E1 \<and> scalarIds E1"
    and "lastBy idOf E1 k = Some e"
  then show "firstBy idOf (loadServers (Storage t)) k = Some e"
    using loadServers_lookup [of t E1] by (simp add: map_add_def)
next
  assume "t STORAGE_KEY = Some (Json (JArr E1)) \<and> JNull \<notin> set E1 \<and> scalarIds E1"
  then show "distinct (map idOf (loadServers (Storage t)))"
    using loadServers_distinct_array [of t E1] by blast
next
  assume "t STORAGE_KEY = Some (Json (JArr E1)) \<and> JNull \<notin> set E1 \<and> scalarIds E1"
    and "distinct (map idOf E1)"
  then show "set (loadServers (Storage t)) =
      set E1 \<union> {s \<in> set SEED_SERVERS. idOf s \<notin> set (map idOf E1)}"
    using loadServers_set [of t E1] by blast
qed

theorem loadServers_union_by_id_witness:
  "firstBy idOf (loadServers (stored [ex_mine, ex_old])) (Some (JStr ''nexo'')) = Some ex_mine
   \<and> set (loadServers (stored [ex_mine, ex_old])) =
       set [ex_mine, ex_old] \<union>
       {s \<in> set SEED_SERVERS. idOf s \<notin> set (map idOf [ex_mine, ex_old])}"
proof -
  let ?t = "\<lambda>k. if k = STORAGE_KEY then Some (Json (JArr [ex_mine, ex_old])) else None"
  have h: "?t STORAGE_KEY = Some (Json (JArr [ex_mine, ex_old]))
      \<and> JNull \<notin> set [ex_mine, ex_old] \<and> scalarIds [ex_mine, ex_old]"
    by (simp add: ex_mine_def ex_old_def scalarIds_def idOf_def)
  have d: "distinct (map idOf [ex_mine, ex_old])"
    by (simp add: ex_mine_def ex_old_def idOf_def)
  have l: "lastBy idOf [ex_mine, ex_old] (Some (JStr ''nexo'')) = Some ex_mine"
    by (simp add: lastBy_def keyed_def ex_mine_def ex_old_def idOf_def)
  have "firstBy idOf (loadServers (Storage ?t)) (Some (JStr ''nexo'')) = Some ex_mine
   \<and> set (loadServers (Storage ?t)) =
       set [ex_mine, ex_old] \<union>
       {s \<in> set SEED_SERVERS. idOf s \<notin> set (map idOf [ex_mine, ex_old])}"
    using loadServers_union_by_id [of Unavailable ?t "[ex_mine, ex_old]"] h d l by blast
  then show ?thesis by (simp only: stored_def)
qed

lemma member_lookup: "distinct (map f xs) \<Longrightarrow> e \<in> set xs \<Longrightarrow> firstBy f xs (f e) = Some e"
proof -
  assume d: "distinct (map f xs)" and e: "e \<in> set xs"
  have "distinct (map fst (keyed f xs))" using d by (simp add: keyed_fst)
  moreover have "(f e, e) \<in> set (keyed f xs)" using e by (auto simp: keyed_def)
  ultimately show ?thesis unfolding firstBy_def by (rule map_of_is_SomeI)
qed

lemma lastBy_member: "lastBy f xs k = Some e \<Longrightarrow> e \<in> set xs \<and> f e = k"
  by (auto simp: lastBy_def keyed_def dest!: map_of_SomeD)

lemma lastBy_distinct: "distinct (map f xs) \<Longrightarrow> e \<in> set xs \<Longrightarrow> lastBy f xs (f e) = Some e"
proof -
  assume d: "distinct (map f xs)" and e: "e \<in> set xs"
  have "distinct (map fst (keyed f (rev xs)))" using d by (simp add: keyed_fst rev_map [symmetric])
  moreover have "(f e, e) \<in> set (keyed f (rev xs))" using e by (auto simp: keyed_def)
  ultimately show ?thesis unfolding lastBy_def by (rule map_of_is_SomeI)
qed

lemma lastBy_dom: "dom (lastBy f xs) = f ` set xs"
  by (simp add: lastBy_def dom_map_of_conv_image_fst keyed_def image_image)

lemma loadServers_keeps_last:
  assumes "t STORAGE_KEY = Some (Json (JArr E1))" and "JNull \<notin> set E1"
    and "lastBy idOf E1 (idOf e) = Some e"
  shows "e \<in> set (loadServers (Storage t))"
proof -
  have "firstBy idOf (loadServers (Storage t)) (idOf e) = Some e"
    using loadServers_lookup [of t E1] assms by (simp add: map_add_def)
  then show ?thesis by (rule lookup_member)
qed

text \<open>Which values the list returned for a stored array holds.\<close>

lemma loadServers_members:
  assumes t: "t STORAGE_KEY = Some (Json (JArr E1))" and n: "JNull \<notin> set E1"
  shows "e \<in> set (loadServers (Storage t)) \<longleftrightarrow>
           lastBy idOf E1 (idOf e) = Some e
           \<or> (e \<in> set SEED_SERVERS \<and> idOf e \<notin> set (map idOf E1))"
proof
  assume e: "e \<in> set (loadServers (Storage t))"
  have "distinct (map idOf (loadServers (Storage t)))"
    using loadServers_distinct_array [of t E1] t n by blast
  from member_lookup [OF this e]
  have look: "(firstBy idOf SEED_SERVERS ++ lastBy idOf E1) (idOf e) = Some e"
    using loadServers_lookup [of t E1] t n by simp
  show "lastBy idOf E1 (idOf e) = Some e
      \<or> (e \<in> set SEED_SERVERS \<and> idOf e \<notin> set (map idOf E1))"
  proof (cases "lastBy idOf E1 (idOf e)")
    case (Some x)
    with look show ?thesis by (simp add: map_add_def)
  next
    case None
    with look have "firstBy idOf SEED_SERVERS (idOf e) = Some e" by (simp add: map_add_def)
    then have "e \<in> set SEED_SERVERS" by (rule lookup_member)
    moreover from None have "idOf e \<notin> dom (lastBy idOf E1)" by (simp add: domIff)
    then have "idOf e \<notin> set (map idOf E1)" by (simp add: lastBy_dom)
    ultimately show ?thesis by blast
  qed
next
  assume "lastBy idOf E1 (idOf e) = Some e
      \<or> (e \<in> set SEED_SERVERS \<and> idOf e \<notin> set (map idOf E1))"
  then show "e \<in> set (loadServers (Storage t))"
  proof
    assume "lastBy idOf E1 (idOf e) = Some e"
    with t n show ?thesis by (rule loadServers_keeps_last)
  next
    assume s: "e \<in> set SEED_SERVERS \<and> idOf e \<notin> set (map idOf E1)"
    then have "idOf e \<notin> dom (lastBy idOf E1)" by (simp add: lastBy_dom)
    then have none: "lastBy idOf E1 (idOf e) = None" by (simp add: domIff)
    have "firstBy idOf SEED_SERVERS (idOf e) = Some e"
      using s by (simp add: member_lookup [OF seed_ids_distinct])
    with none have "firstBy idOf (loadServers (Storage t)) (idOf e) = Some e"
      using loadServers_lookup [of t E1] t n by (simp add: map_add_def)
    then show ?thesis by (rule lookup_member)
  qed
qed

text \<open>
  Claim C9, as stated, fails: a stored array of a number, a string and a boolean is not a
  sequence of records, yet \<^verbatim>\<open>loadServers\<close> does not return the seed list for it. It keys
  the three elements by their missing \<^verbatim>\<open>id\<close> and returns the last of them in front of the
  seeds.
\<close>

theorem loadServers_fallback_counterexample:
  "\<not> list_all isRecord [JNum 1, JStr ''a'', JBool True]
   \<and> loadServers (stored [JNum 1, JStr ''a'', JBool True]) = JBool True # SEED_SERVERS
   \<and> loadServers (stored [JNum 1, JStr ''a'', JBool True]) \<noteq> SEED_SERVERS"
proof -
  have e: "loadServers (stored [JNum 1, JStr ''a'', JBool True]) = JBool True # SEED_SERVERS"
    by code_simp
  have "JBool True # SEED_SERVERS \<noteq> SEED_SERVERS" by simp
  with e show ?thesis by simp
qed

text \<open>
  Claim C9, amended. \<^verbatim>\<open>loadServers\<close> returns the seed list, and nothing else, when the
  storage cannot be read, holds nothing under the key, holds the empty string or a text
  that does not parse, holds a value that is not an array, or holds an array with a
  \<^verbatim>\<open>null\<close> element (reading its \<^verbatim>\<open>id\<close> throws). Every exception of the \<^verbatim>\<open>try\<close> block
  ends in the seed list; \<^verbatim>\<open>loadServers\<close> itself yields a list in each case. An array
  without \<^verbatim>\<open>null\<close> is not checked further: each of its elements that is the last one with
  its id is in the returned list, be it a record or not (an element that is not a record
  has no id).
\<close>

theorem loadServers_fallback:
  "(getItem st STORAGE_KEY = Inl e \<longrightarrow> loadServers st = SEED_SERVERS)
   \<and> (getItem st STORAGE_KEY = Inr None \<longrightarrow> loadServers st = SEED_SERVERS)
   \<and> (getItem st STORAGE_KEY = Inr (Some Empty) \<longrightarrow> loadServers st = SEED_SERVERS)
   \<and> (getItem st STORAGE_KEY = Inr (Some raw) \<and> JSON_parse raw = Inl e \<longrightarrow>
        loadServers st = SEED_SERVERS)
   \<and> (getItem st STORAGE_KEY = Inr (Some raw) \<and> JSON_parse raw = Inr v \<and> (\<forall>xs. v \<noteq> JArr xs) \<longrightarrow>
        loadServers st = SEED_SERVERS)
   \<and> (getItem st STORAGE_KEY = Inr (Some raw) \<and> JSON_parse raw = Inr (JArr xs) \<and> JNull \<in> set xs \<longrightarrow>
        loadServers st = SEED_SERVERS)
   \<and> (loadServers_try st = Inl e \<longrightarrow> loadServers st = SEED_SERVERS)
   \<and> (getItem st STORAGE_KEY = Inr (Some raw) \<and> JSON_parse raw = Inr (JArr xs) \<and> JNull \<notin> set xs
        \<and> scalarIds xs \<longrightarrow>
        (\<forall>x. lastBy idOf xs (idOf x) = Some x \<longrightarrow> x \<in> set (loadServers st)))"
proof (intro conjI impI allI)
  assume "getItem st STORAGE_KEY = Inl e"
  then show "loadServers st = SEED_SERVERS"
    by (simp add: loadServers_def loadServers_try_def)
next
  assume "getItem st STORAGE_KEY = Inr None"
  then show "loadServers st = SEED_SERVERS"
    by (simp add: loadServers_def loadServers_try_def)
next
  assume "getItem st STORAGE_KEY = Inr (Some Empty)"
  then show "loadServers st = SEED_SERVERS"
    by (simp add: loadServers_def loadServers_try_def)
next
  assume "getItem st STORAGE_KEY = Inr (Some raw) \<and> JSON_parse raw = Inl e"
  then show "loadServers st = SEED_SERVERS"
    by (cases raw) (simp_all add: loadServers_def loadServers_try_def)
next
  assume a: "getItem st STORAGE_KEY = Inr (Some raw) \<and> JSON_parse raw = Inr v \<and> (\<forall>xs. v \<noteq> JArr xs)"
  then have raw: "raw = Json v" by (cases raw) simp_all
  from a show "loadServers st = SEED_SERVERS"
    unfolding raw by (cases v) (simp_all add: loadServers_def loadServers_try_def)
next
  assume a: "getItem st STORAGE_KEY = Inr (Some raw) \<and> JSON_parse raw = Inr (JArr xs) \<and> JNull \<in> set xs"
  then have raw: "raw = Json (JArr xs)" by (cases raw) simp_all
  from a show "loadServers st = SEED_SERVERS"
    unfolding raw by (simp add: loadServers_def loadServers_try_def keyedBy_eq)
next
  assume "loadServers_try st = Inl e"
  then show "loadServers st = SEED_SERVERS"
    by (simp add: loadServers_def)
next
  fix x
  assume a: "getItem st STORAGE_KEY = Inr (Some raw) \<and> JSON_parse raw = Inr (JArr xs)
      \<and> JNull \<notin> set xs \<and> scalarIds xs"
    and l: "lastBy idOf xs (idOf x) = Some x"
  from a have raw: "raw = Json (JArr xs)" by (cases raw) simp_all
  from a obtain t where st: "st = Storage t" by (cases st) simp_all
  from a have t: "t STORAGE_KEY = Some (Json (JArr xs))" by (simp add: st raw)
  from a have n: "JNull \<notin> set xs" by blast
  show "x \<in> set (loadServers st)"
    unfolding st using t n l by (rule loadServers_keeps_last)
qed

theorem loadServers_fallback_witness:
  "loadServers Unavailable = SEED_SERVERS
   \<and> loadServers (Storage (\<lambda>k. None)) = SEED_SERVERS
   \<and> loadServers (Storage (\<lambda>k. Some Empty)) = SEED_SERVERS
   \<and> loadServers (Storage (\<lambda>k. Some Malformed)) = SEED_SERVERS
   \<and> loadServers (Storage (\<lambda>k. Some (Json (JObj [(''id'', JStr ''a'')])))) = SEED_SERVERS
   \<and> loadServers (stored [ex_mine, JNull]) = SEED_SERVERS
   \<and> JBool True \<in> set (loadServers (stored [JNum 1, JStr ''a'', JBool True]))"
proof -
  have f: "loadServers Unavailable = SEED_SERVERS
   \<and> loadServers (Storage (\<lambda>k. None)) = SEED_SERVERS
   \<and> loadServers (Storage (\<lambda>k. Some Empty)) = SEED_SERVERS
   \<and> loadServers (Storage (\<lambda>k. Some Malformed)) = SEED_SERVERS
   \<and> loadServers (Storage (\<lambda>k. Some (Json (JObj [(''id'', JStr ''a'')])))) = SEED_SERVERS
   \<and> loadServers (stored [ex_mine, JNull]) = SEED_SERVERS"
    using loadServers_fallback [of Unavailable SecurityError]
      loadServers_fallback [of "Storage (\<lambda>k. None)"]
      loadServers_fallback [of "Storage (\<lambda>k. Some Empty)"]
      loadServers_fallback [of "Storage (\<lambda>k. Some Malformed)" SyntaxError Malformed]
      loadServers_fallback [of "Storage (\<lambda>k. Some (Json (JObj [(''id'', JStr ''a'')])))" _
         "Json (JObj [(''id'', JStr ''a'')])" "JObj [(''id'', JStr ''a'')]"]
      loadServers_fallback [of "stored [ex_mine, JNull]" _
         "Json (JArr [ex_mine, JNull])" _ "[ex_mine, JNull]"]
    by (simp add: stored_def)
  let ?xs = "[JNum 1, JStr ''a'', JBool True]"
  have h: "getItem (stored ?xs) STORAGE_KEY = Inr (Some (Json (JArr ?xs)))
      \<and> JSON_parse (Json (JArr ?xs)) = Inr (JArr ?xs) \<and> JNull \<notin> set ?xs \<and> scalarIds ?xs"
    by (simp add: stored_def scalarIds_def idOf_def)
  have l: "lastBy idOf ?xs (idOf (JBool True)) = Some (JBool True)"
    by (simp add: lastBy_def keyed_def idOf_def)
  from loadServers_fallback [of "stored ?xs" _ "Json (JArr ?xs)" _ ?xs] h l
  have "JBool True \<in> set (loadServers (stored ?xs))" by blast
  with f show ?thesis by blast
qed

text \<open>
  Claim C10, as stated, fails: of two stored records that both lack an \<^verbatim>\<open>id\<close>, the first
  is not in the list \<^verbatim>\<open>loadServers\<close> returns.
\<close>

theorem loadServers_retains_counterexample:
  "\<not> set [ex_noid_a, ex_noid_b] \<subseteq> set (loadServers (stored [ex_noid_a, ex_noid_b]))"
proof
  let ?t = "\<lambda>k. if k = STORAGE_KEY then Some (Json (JArr [ex_noid_a, ex_noid_b])) else None"
  assume "set [ex_noid_a, ex_noid_b] \<subseteq> set (loadServers (stored [ex_noid_a, ex_noid_b]))"
  then have a: "ex_noid_a \<in> set (loadServers (Storage ?t))" by (simp add: stored_def)
  have n: "JNull \<notin> set [ex_noid_a, ex_noid_b]" by (simp add: ex_noid_a_def ex_noid_b_def)
  have "distinct (map idOf (loadServers (Storage ?t)))"
    using loadServers_distinct_array [of ?t "[ex_noid_a, ex_noid_b]"] n by simp
  from member_lookup [OF this a]
  have "firstBy idOf (loadServers (Storage ?t)) (idOf ex_noid_a) = Some ex_noid_a" .
  moreover have "firstBy idOf (loadServers (Storage ?t)) =
      firstBy idOf SEED_SERVERS ++ lastBy idOf [ex_noid_a, ex_noid_b]"
    using loadServers_lookup [of ?t "[ex_noid_a, ex_noid_b]"] n by simp
  moreover have "lastBy idOf [ex_noid_a, ex_noid_b] (idOf ex_noid_a) = Some ex_noid_b"
    by (simp add: lastBy_def keyed_def idOf_def ex_noid_a_def ex_noid_b_def)
  ultimately have "ex_noid_b = ex_noid_a" by (simp add: map_add_def)
  then show False by (simp add: ex_noid_a_def ex_noid_b_def)
qed

text \<open>
  Claim C10, amended. \<^verbatim>\<open>loadServers\<close> does not look at the \<^verbatim>\<open>url\<close> or at any property
  but \<^verbatim>\<open>id\<close>. Of a stored array of records it keeps every record that is the last one
  with its id, whatever its address and fields, and so every record when no id is
  repeated. The returned list holds exactly these records and the seeds whose id is not
  in the array, and holds no id twice. A record of the array that is not the last one
  with its id is replaced: it is not in the returned list, which holds the last record of
  that id under the id. A kept record whose address does not start with \<^verbatim>\<open>wss://\<close> is an
  entry of the returned list that violates the address invariant.
\<close>

theorem loadServers_no_validation:
  "t STORAGE_KEY = Some (Json (JArr E1)) \<and> JNull \<notin> set E1 \<and> scalarIds E1 \<longrightarrow>
     (\<forall>e. lastBy idOf E1 (idOf e) = Some e \<longrightarrow> e \<in> set (loadServers (Storage t)))
     \<and> (distinct (map idOf E1) \<longrightarrow> set E1 \<subseteq> set (loadServers (Storage t)))
     \<and> (\<forall>e. e \<in> set (loadServers (Storage t)) \<longleftrightarrow>
              lastBy idOf E1 (idOf e) = Some e
              \<or> (e \<in> set SEED_SERVERS \<and> idOf e \<notin> set (map idOf E1)))
     \<and> distinct (map idOf (loadServers (Storage t)))
     \<and> (\<forall>e \<in> set E1. lastBy idOf E1 (idOf e) \<noteq> Some e \<longrightarrow>
          e \<notin> set (loadServers (Storage t))
          \<and> (\<exists>l. lastBy idOf E1 (idOf e) = Some l \<and> l \<in> set (loadServers (Storage t))
                \<and> firstBy idOf (loadServers (Storage t)) (idOf e) = Some l))
     \<and> (\<forall>e. lastBy idOf E1 (idOf e) = Some e \<and> \<not> wssUrl e \<longrightarrow>
          (\<exists>x \<in> set (loadServers (Storage t)). \<not> wssUrl x))"
proof
  assume h: "t STORAGE_KEY = Some (Json (JArr E1)) \<and> JNull \<notin> set E1 \<and> scalarIds E1"
  then have t: "t STORAGE_KEY = Some (Json (JArr E1))" and n: "JNull \<notin> set E1" by blast+
  let ?R = "loadServers (Storage t)"
  have keeps: "e \<in> set ?R" if "lastBy idOf E1 (idOf e) = Some e" for e
    using t n that by (rule loadServers_keeps_last)
  have members: "e \<in> set ?R \<longleftrightarrow>
      lastBy idOf E1 (idOf e) = Some e \<or> (e \<in> set SEED_SERVERS \<and> idOf e \<notin> set (map idOf E1))" for e
    using t n by (rule loadServers_members)
  have look: "firstBy idOf ?R = firstBy idOf SEED_SERVERS ++ lastBy idOf E1"
    using t n by (rule loadServers_lookup)
  have c1: "\<forall>e. lastBy idOf E1 (idOf e) = Some e \<longrightarrow> e \<in> set ?R"
    using keeps by blast
  have c2: "distinct (map idOf E1) \<longrightarrow> set E1 \<subseteq> set ?R"
  proof (intro impI subsetI)
    fix e assume "distinct (map idOf E1)" and "e \<in> set E1"
    then have "lastBy idOf E1 (idOf e) = Some e" by (rule lastBy_distinct)
    then show "e \<in> set ?R" by (rule keeps)
  qed
  have c3: "\<forall>e. e \<in> set ?R \<longleftrightarrow>
      lastBy idOf E1 (idOf e) = Some e \<or> (e \<in> set SEED_SERVERS \<and> idOf e \<notin> set (map idOf E1))"
    using members by blast
  have c4: "distinct (map idOf ?R)"
    using t n by (rule loadServers_distinct_array)
  have c5: "\<forall>e \<in> set E1. lastBy idOf E1 (idOf e) \<noteq> Some e \<longrightarrow>
          e \<notin> set ?R
          \<and> (\<exists>l. lastBy idOf E1 (idOf e) = Some l \<and> l \<in> set ?R
                \<and> firstBy idOf ?R (idOf e) = Some l)"
  proof (intro ballI impI)
    fix e assume e: "e \<in> set E1" and notlast: "lastBy idOf E1 (idOf e) \<noteq> Some e"
    from e have "idOf e \<in> dom (lastBy idOf E1)" by (simp add: lastBy_dom)
    then obtain l where l: "lastBy idOf E1 (idOf e) = Some l" by blast
    from lastBy_member [OF l] have idl: "idOf l = idOf e" by blast
    from l idl have "lastBy idOf E1 (idOf l) = Some l" by simp
    then have lin: "l \<in> set ?R" by (rule keeps)
    have fl: "firstBy idOf ?R (idOf e) = Some l" using l by (simp add: look map_add_def)
    have "e \<notin> set ?R"
    proof
      assume "e \<in> set ?R"
      with members [of e] notlast have "idOf e \<notin> set (map idOf E1)" by blast
      with e show False by simp
    qed
    with l lin fl show "e \<notin> set ?R
          \<and> (\<exists>l. lastBy idOf E1 (idOf e) = Some l \<and> l \<in> set ?R
                \<and> firstBy idOf ?R (idOf e) = Some l)" by blast
  qed
  have c6: "\<forall>e. lastBy idOf E1 (idOf e) = Some e \<and> \<not> wssUrl e \<longrightarrow> (\<exists>x \<in> set ?R. \<not> wssUrl x)"
    using keeps by blast
  from c1 c2 c3 c4 c5 c6
  show "(\<forall>e. lastBy idOf E1 (idOf e) = Some e \<longrightarrow> e \<in> set ?R)
     \<and> (distinct (map idOf E1) \<longrightarrow> set E1 \<subseteq> set ?R)
     \<and> (\<forall>e. e \<in> set ?R \<longleftrightarrow>
              lastBy idOf E1 (idOf e) = Some e
              \<or> (e \<in> set SEED_SERVERS \<and> idOf e \<notin> set (map idOf E1)))
     \<and> distinct (map idOf ?R)
     \<and> (\<forall>e \<in> set E1. lastBy idOf E1 (idOf e) \<noteq> Some e \<longrightarrow>
          e \<notin> set ?R
          \<and> (\<exists>l. lastBy idOf E1 (idOf e) = Some l \<and> l \<in> set ?R
                \<and> firstBy idOf ?R (idOf e) = Some l))
     \<and> (\<forall>e. lastBy idOf E1 (idOf e) = Some e \<and> \<not> wssUrl e \<longrightarrow>
          (\<exists>x \<in> set ?R. \<not> wssUrl x))"
    by (intro conjI)
qed

theorem loadServers_no_validation_witness:
  "ex_old \<in> set (loadServers (stored [ex_mine, ex_old])) \<and> \<not> wssUrl ex_old
   \<and> ex_noid_a \<notin> set (loadServers (stored [ex_noid_a, ex_noid_b]))
   \<and> ex_noid_b \<in> set (loadServers (stored [ex_noid_a, ex_noid_b]))
   \<and> firstBy idOf (loadServers (stored [ex_noid_a, ex_noid_b])) None = Some ex_noid_b"
proof -
  let ?t = "\<lambda>k. if k = STORAGE_KEY then Some (Json (JArr [ex_mine, ex_old])) else None"
  let ?u = "\<lambda>k. if k = STORAGE_KEY then Some (Json (JArr [ex_noid_a, ex_noid_b])) else None"
  have h: "?t STORAGE_KEY = Some (Json (JArr [ex_mine, ex_old]))
      \<and> JNull \<notin> set [ex_mine, ex_old] \<and> scalarIds [ex_mine, ex_old]"
    by (simp add: ex_mine_def ex_old_def scalarIds_def idOf_def)
  have d: "distinct (map idOf [ex_mine, ex_old])"
    by (simp add: ex_mine_def ex_old_def idOf_def)
  have w: "\<not> wssUrl ex_old"
    by (simp add: wssUrl_def wssAddress_def urlOf_def ex_old_def test_wss_def)
  from loadServers_no_validation [of ?t "[ex_mine, ex_old]"] h d
  have "set [ex_mine, ex_old] \<subseteq> set (loadServers (Storage ?t))"
    by blast
  then have 1: "ex_old \<in> set (loadServers (stored [ex_mine, ex_old]))" by (simp add: stored_def)
  have g: "?u STORAGE_KEY = Some (Json (JArr [ex_noid_a, ex_noid_b]))
      \<and> JNull \<notin> set [ex_noid_a, ex_noid_b] \<and> scalarIds [ex_noid_a, ex_noid_b]"
    by (simp add: ex_noid_a_def ex_noid_b_def scalarIds_def idOf_def)
  have a: "ex_noid_a \<in> set [ex_noid_a, ex_noid_b]" by simp
  have ida: "idOf ex_noid_a = None" by (simp add: idOf_def ex_noid_a_def)
  have la: "lastBy idOf [ex_noid_a, ex_noid_b] (idOf ex_noid_a) = Some ex_noid_b"
    by (simp add: lastBy_def keyed_def idOf_def ex_noid_a_def ex_noid_b_def)
  have ne: "ex_noid_b \<noteq> ex_noid_a" by (simp add: ex_noid_a_def ex_noid_b_def)
  from la ne have notlast: "lastBy idOf [ex_noid_a, ex_noid_b] (idOf ex_noid_a) \<noteq> Some ex_noid_a"
    by simp
  from loadServers_no_validation [of ?u "[ex_noid_a, ex_noid_b]"] g a notlast
  have "ex_noid_a \<notin> set (loadServers (Storage ?u))
      \<and> (\<exists>l. lastBy idOf [ex_noid_a, ex_noid_b] (idOf ex_noid_a) = Some l
            \<and> l \<in> set (loadServers (Storage ?u))
            \<and> firstBy idOf (loadServers (Storage ?u)) (idOf ex_noid_a) = Some l)"
    by blast
  with la have "ex_noid_a \<notin> set (loadServers (Storage ?u))
      \<and> ex_noid_b \<in> set (loadServers (Storage ?u))
      \<and> firstBy idOf (loadServers (Storage ?u)) (idOf ex_noid_a) = Some ex_noid_b"
    by auto
  then have 2: "ex_noid_a \<notin> set (loadServers (stored [ex_noid_a, ex_noid_b]))
      \<and> ex_noid_b \<in> set (loadServers (stored [ex_noid_a, ex_noid_b]))
      \<and> firstBy idOf (loadServers (stored [ex_noid_a, ex_noid_b])) None = Some ex_noid_b"
    by (simp add: stored_def ida)
  from 1 w 2 show ?thesis by blast
qed

section \<open>Merging\<close>

lemma setAll_eq:
  "setAll m cs = (if JNull \<in> set cs then Inl TypeError else Inr (setPairs m (keyed keyOf cs)))"
proof (induction cs arbitrary: m)
  case Nil
  show ?case by (simp add: keyed_def setPairs_Nil)
next
  case (Cons c cs)
  show ?case by (simp add: Cons.IH keyed_def setPairs_Cons)
qed

lemma mergeServers_eq:
  "mergeServers prev cs =
     (if JNull \<in> set prev \<or> JNull \<in> set cs then Inl TypeError
      else Inr (Map_values (mergedTable prev cs)))"
  by (simp add: mergeServers_def keyedBy_eq setAll_eq mergedTable_def)

lemma mergedTable_distinct: "distinct (map fst (mergedTable prev cs))"
  unfolding mergedTable_def by (rule setPairs_distinct) (rule new_Map_distinct)

lemma mergedTable_agree: "\<forall>p \<in> set (mergedTable prev cs). fst p = keyOf (snd p)"
proof
  fix p assume "p \<in> set (mergedTable prev cs)"
  then have "p \<in> set (new_Map (keyed keyOf prev)) \<or> p \<in> set (keyed keyOf cs)"
    using setPairs_subset [of "new_Map (keyed keyOf prev)" "keyed keyOf cs"]
    by (auto simp: mergedTable_def)
  then show "fst p = keyOf (snd p)"
    using new_Map_agree [of keyOf prev] keyed_agree [of keyOf cs] by blast
qed

lemma mergedTable_lookup: "map_of (mergedTable prev cs) = lastBy keyOf prev ++ lastBy keyOf cs"
  by (simp add: mergedTable_def setPairs_lookup new_Map_lookup lastBy_def keyed_rev)

lemma mergedTable_keyed: "keyed keyOf (Map_values (mergedTable prev cs)) = mergedTable prev cs"
  unfolding Map_values_def by (rule agree_keyed) (rule mergedTable_agree)

lemma mergedTable_values: "set (Map_values (mergedTable prev cs)) \<subseteq> set prev \<union> set cs"
proof
  fix e assume "e \<in> set (Map_values (mergedTable prev cs))"
  then obtain k where "(k, e) \<in> set (mergedTable prev cs)" by (auto simp: Map_values_def)
  then have "map_of (mergedTable prev cs) k = Some e"
    using mergedTable_distinct [of prev cs] by (simp add: map_of_is_SomeI)
  then have "lastBy keyOf cs k = Some e \<or> lastBy keyOf prev k = Some e"
    by (auto simp: mergedTable_lookup map_add_def split: option.splits)
  then show "e \<in> set prev \<union> set cs" using lastBy_member by blast
qed

lemma mergedTable_again:
  "mergedTable (Map_values (mergedTable prev cs)) cs = mergedTable prev cs"
proof -
  let ?m = "mergedTable prev cs"
  have start: "new_Map (keyed keyOf (Map_values ?m)) = ?m"
    unfolding mergedTable_keyed by (rule new_Map_distinct_id) (rule mergedTable_distinct)
  have present: "fst ` set (keyed keyOf cs) \<subseteq> set (map fst ?m)"
  proof -
    have "set (map fst ?m) = dom (map_of ?m)" by (simp add: dom_map_of_conv_image_fst)
    also have "\<dots> = keyOf ` set prev \<union> keyOf ` set cs"
      by (simp add: mergedTable_lookup lastBy_dom Un_commute)
    finally show ?thesis by (auto simp: keyed_def)
  qed
  have keys: "map fst (setPairs ?m (keyed keyOf cs)) = map fst ?m"
    by (rule setPairs_keys_present [OF present])
  have "map_of (setPairs ?m (keyed keyOf cs)) = map_of ?m ++ lastBy keyOf cs"
    by (simp add: setPairs_lookup lastBy_def keyed_rev)
  also have "\<dots> = map_of ?m"
    by (auto simp: mergedTable_lookup fun_eq_iff map_add_def split: option.splits)
  finally have look: "map_of (setPairs ?m (keyed keyOf cs)) = map_of ?m" .
  have d: "distinct (map fst (setPairs ?m (keyed keyOf cs)))"
    by (rule setPairs_distinct) (rule mergedTable_distinct)
  have "setPairs ?m (keyed keyOf cs) = ?m"
    by (rule table_eqI [OF keys d look])
  then show ?thesis
    unfolding mergedTable_def [of "Map_values ?m" cs] start .
qed

text \<open>
  Claim C6. Merging a list \<open>X\<close> of decoded entries into a store succeeds, and merging the
  same \<open>X\<close> into the result gives that result again, as a list and so as a set. The result
  read by the merge key (\<^verbatim>\<open>id\<close> if truthy, else \<^verbatim>\<open>url\<close>) is the store read by key,
  overridden by \<open>X\<close> read by key, the last entry of a key winning in each; no key occurs
  twice in it.
\<close>

theorem mergeServers_idempotent:
  "JNull \<notin> set prev \<and> JNull \<notin> set X \<and> scalarKeys prev \<and> scalarKeys X \<longrightarrow>
     (\<exists>R. mergeServers prev X = Inr R \<and> mergeServers R X = Inr R
          \<and> set R \<subseteq> set prev \<union> set X
          \<and> distinct (map keyOf R)
          \<and> firstBy keyOf R = lastBy keyOf prev ++ lastBy keyOf X)"
proof
  assume h: "JNull \<notin> set prev \<and> JNull \<notin> set X \<and> scalarKeys prev \<and> scalarKeys X"
  let ?R = "Map_values (mergedTable prev X)"
  have first: "mergeServers prev X = Inr ?R" using h by (simp add: mergeServers_eq)
  have sub: "set ?R \<subseteq> set prev \<union> set X" by (rule mergedTable_values)
  with h have "JNull \<notin> set ?R" by blast
  with h have second: "mergeServers ?R X = Inr ?R"
    by (simp add: mergeServers_eq mergedTable_again)
  have "map keyOf ?R = map fst (keyed keyOf ?R)" by (simp add: keyed_fst)
  then have d: "distinct (map keyOf ?R)"
    using mergedTable_distinct [of prev X] by (simp only: mergedTable_keyed)
  have look: "firstBy keyOf ?R = lastBy keyOf prev ++ lastBy keyOf X"
    unfolding firstBy_def mergedTable_keyed by (rule mergedTable_lookup)
  from first second sub d look
  show "\<exists>R. mergeServers prev X = Inr R \<and> mergeServers R X = Inr R
          \<and> set R \<subseteq> set prev \<union> set X
          \<and> distinct (map keyOf R)
          \<and> firstBy keyOf R = lastBy keyOf prev ++ lastBy keyOf X"
    by blast
qed

theorem mergeServers_idempotent_witness:
  "\<exists>R. mergeServers [ex_mine, ex_old] [ex_x1, ex_x1_later] = Inr R
       \<and> mergeServers R [ex_x1, ex_x1_later] = Inr R
       \<and> firstBy keyOf R (Some (JStr ''x1'')) = Some ex_x1_later"
proof -
  have h: "JNull \<notin> set [ex_mine, ex_old] \<and> JNull \<notin> set [ex_x1, ex_x1_later]
      \<and> scalarKeys [ex_mine, ex_old] \<and> scalarKeys [ex_x1, ex_x1_later]"
    by (simp add: ex_mine_def ex_old_def ex_x1_def ex_x1_later_def scalarKeys_def keyOf_def or_opt_def)
  have l: "(lastBy keyOf [ex_mine, ex_old] ++ lastBy keyOf [ex_x1, ex_x1_later]) (Some (JStr ''x1''))
      = Some ex_x1_later"
    by (simp add: lastBy_def keyed_def keyOf_def or_opt_def ex_x1_def ex_x1_later_def)
  from mergeServers_idempotent [of "[ex_mine, ex_old]" "[ex_x1, ex_x1_later]"] h
  obtain R where "mergeServers [ex_mine, ex_old] [ex_x1, ex_x1_later] = Inr R"
    and "mergeServers R [ex_x1, ex_x1_later] = Inr R"
    and "firstBy keyOf R = lastBy keyOf [ex_mine, ex_old] ++ lastBy keyOf [ex_x1, ex_x1_later]"
    by blast
  with l show ?thesis by simp
qed

section \<open>Uniqueness of ids\<close>

lemma distinct_map_via:
  "distinct (map g xs) \<Longrightarrow> (\<forall>x \<in> set xs. \<forall>y \<in> set xs. f x = f y \<longrightarrow> g x = g y) \<Longrightarrow>
   distinct (map f xs)"
proof (induction xs)
  case Nil
  show ?case by simp
next
  case (Cons a xs)
  have "f a \<notin> f ` set xs"
  proof
    assume "f a \<in> f ` set xs"
    then obtain y where y: "y \<in> set xs" and fy: "f a = f y" by (rule imageE)
    from Cons.prems(2) y fy have "g a = g y" by (metis list.set_intros)
    moreover from Cons.prems(1) have "g a \<notin> g ` set xs" by simp
    ultimately show False using y by blast
  qed
  moreover have "distinct (map f xs)"
  proof (rule Cons.IH)
    show "distinct (map g xs)" using Cons.prems(1) by simp
    show "\<forall>x \<in> set xs. \<forall>y \<in> set xs. f x = f y \<longrightarrow> g x = g y"
      using Cons.prems(2) by (meson list.set_intros(2))
  qed
  ultimately show ?case by simp
qed

lemma keyOf_truthy_id: "truthy (idOf p) \<Longrightarrow> keyOf p = idOf p"
  by (simp add: keyOf_def or_opt_def idOf_def)

lemma merged_ids_distinct:
  assumes d: "distinct (map idOf prev)" and c: "\<forall>c \<in> set cs. truthy (idOf c)"
  shows "distinct (map idOf (Map_values (mergedTable prev cs)))"
proof (rule distinct_map_via [where g = keyOf])
  let ?R = "Map_values (mergedTable prev cs)"
  have "map keyOf ?R = map fst (keyed keyOf ?R)" by (simp add: keyed_fst)
  then show "distinct (map keyOf ?R)"
    using mergedTable_distinct [of prev cs] by (simp only: mergedTable_keyed)
  show "\<forall>x \<in> set ?R. \<forall>y \<in> set ?R. idOf x = idOf y \<longrightarrow> keyOf x = keyOf y"
  proof (intro ballI impI)
    fix x y
    assume x: "x \<in> set ?R" and y: "y \<in> set ?R" and eq: "idOf x = idOf y"
    show "keyOf x = keyOf y"
    proof (cases "truthy (idOf x)")
      case True
      then show ?thesis using eq by (simp add: keyOf_truthy_id)
    next
      case False
      with c have "x \<notin> set cs" by blast
      moreover from False eq c have "y \<notin> set cs" by auto
      ultimately have "x \<in> set prev" "y \<in> set prev"
        using x y mergedTable_values [of prev cs] by blast+
      moreover from d have "inj_on idOf (set prev)" by (simp add: distinct_map)
      ultimately have "x = y" using eq by (simp add: inj_on_def)
      then show ?thesis by simp
    qed
  qed
qed

lemma truthy_orElse: "truthy (Some d) \<Longrightarrow> truthy (Some (orElse a d))"
  by (cases a) simp_all

lemma cleanRecord_id: "cleanRecord now i s = Inr c \<Longrightarrow> truthy (idOf c)"
  by (auto simp: cleanRecord_def idOf_def truthy_orElse split: if_splits sum.splits)

lemma mapIndexed_members:
  "mapIndexed f i xs = Inr cs \<Longrightarrow> \<forall>c \<in> set cs. \<exists>j s. s \<in> set xs \<and> f j s = Inr c"
proof (induction xs arbitrary: i cs)
  case Nil
  then show ?case by simp
next
  case (Cons x xs)
  from Cons.prems obtain c cs' where c: "f i x = Inr c" and r: "mapIndexed f (Suc i) xs = Inr cs'"
    and cs: "cs = c # cs'"
    by (auto split: sum.splits)
  from Cons.IH [OF r] have "\<forall>c \<in> set cs'. \<exists>j s. s \<in> set (x # xs) \<and> f j s = Inr c"
    by (metis list.set_intros(2))
  moreover have "\<exists>j s. s \<in> set (x # xs) \<and> f j s = Inr c" using c by auto
  ultimately show ?case by (simp add: cs)
qed

lemma cleaned_ids: "cleaned now list = Inr cs \<Longrightarrow> \<forall>c \<in> set cs. truthy (idOf c)"
proof -
  assume "cleaned now list = Inr cs"
  then obtain cs' where m: "mapIndexed (cleanRecord now) 0 list = Inr cs'" and cs: "cs = filter wssUrl cs'"
    by (auto simp: cleaned_def split: sum.splits)
  from mapIndexed_members [OF m] cleanRecord_id have "\<forall>c \<in> set cs'. truthy (idOf c)" by blast
  then show ?thesis by (simp add: cs)
qed

lemma loadServers_distinct: "distinct (map idOf (loadServers st))"
proof (rule disjE [OF loadServers_cases [of st]])
  assume "loadServers st = SEED_SERVERS"
  then show ?thesis by (simp add: seed_ids_distinct)
next
  assume "\<exists>t E1. st = Storage t \<and> t STORAGE_KEY = Some (Json (JArr E1)) \<and> JNull \<notin> set E1"
  then obtain t E1 where "st = Storage t" "t STORAGE_KEY = Some (Json (JArr E1))" "JNull \<notin> set E1"
    by blast
  then show ?thesis using loadServers_distinct_array [of t E1] by simp
qed

lemma mergeServers_ids:
  assumes "mergeServers prev cs = Inr R" and "distinct (map idOf prev)"
    and "\<forall>c \<in> set cs. truthy (idOf c)"
  shows "distinct (map idOf R)"
    and "\<forall>k e. lastBy keyOf cs k = Some e \<longrightarrow> firstBy keyOf R k = Some e"
proof -
  from assms(1) have R: "R = Map_values (mergedTable prev cs)"
    by (simp add: mergeServers_eq split: if_splits)
  show "distinct (map idOf R)" unfolding R by (rule merged_ids_distinct [OF assms(2,3)])
  have "firstBy keyOf R = lastBy keyOf prev ++ lastBy keyOf cs"
    unfolding R firstBy_def mergedTable_keyed by (rule mergedTable_lookup)
  then show "\<forall>k e. lastBy keyOf cs k = Some e \<longrightarrow> firstBy keyOf R k = Some e"
    by (simp add: map_add_def)
qed

text \<open>
  Claim C2, as stated, fails for \<^verbatim>\<open>addServer\<close>: adding an entry whose id is already in
  the store leaves two entries with that id.
\<close>

theorem addServer_unique_counterexample:
  "distinct (map idOf [ex_custom]) \<and> \<not> distinct (map idOf (addServer ex_custom [ex_custom]))"
  by (simp add: addServer_def ex_custom_def)

text \<open>
  Claim C2, amended. After \<^verbatim>\<open>loadServers\<close> no two entries of the store share an id.
  \<^verbatim>\<open>importList\<close> keeps it so: merging into a store without repeated ids gives a store
  without repeated ids, in which an imported entry replaces what was stored under its key,
  the last imported entry of a key winning; in \<^verbatim>\<open>loadServers\<close> a stored entry wins over
  the seed and over earlier stored entries of its id. \<^verbatim>\<open>addServer\<close> prepends without
  looking: the ids stay unique exactly when the new id is not in the store yet.
\<close>

theorem store_ids_unique:
  "((\<forall>E1. getItem st STORAGE_KEY = Inr (Some (Json (JArr E1))) \<longrightarrow> scalarIds E1) \<longrightarrow>
       distinct (map idOf (loadServers st)))
   \<and> (t STORAGE_KEY = Some (Json (JArr E1)) \<and> JNull \<notin> set E1 \<and> scalarIds E1 \<longrightarrow>
       (\<forall>k e. lastBy idOf E1 k = Some e \<longrightarrow> firstBy idOf (loadServers (Storage t)) k = Some e))
   \<and> (importList now list prev = Inr R \<and> distinct (map idOf prev)
        \<and> scalarKeys prev \<and> scalarIds list \<longrightarrow> distinct (map idOf R))
   \<and> (mergeServers prev cs = Inr R' \<and> distinct (map idOf prev) \<and> (\<forall>c \<in> set cs. truthy (idOf c))
        \<and> scalarKeys prev \<and> scalarKeys cs \<longrightarrow>
       distinct (map idOf R')
       \<and> (\<forall>k e. lastBy keyOf cs k = Some e \<longrightarrow> firstBy keyOf R' k = Some e))
   \<and> (distinct (map idOf (addServer newS prev)) \<longleftrightarrow>
        idOf (spread newS) \<notin> set (map idOf prev) \<and> distinct (map idOf prev))"
proof (intro conjI)
  show "(\<forall>E1. getItem st STORAGE_KEY = Inr (Some (Json (JArr E1))) \<longrightarrow> scalarIds E1) \<longrightarrow>
       distinct (map idOf (loadServers st))"
    by (simp add: loadServers_distinct)
  show "t STORAGE_KEY = Some (Json (JArr E1)) \<and> JNull \<notin> set E1 \<and> scalarIds E1 \<longrightarrow>
       (\<forall>k e. lastBy idOf E1 k = Some e \<longrightarrow> firstBy idOf (loadServers (Storage t)) k = Some e)"
  proof (intro impI allI)
    fix k e
    assume "t STORAGE_KEY = Some (Json (JArr E1)) \<and> JNull \<notin> set E1 \<and> scalarIds E1"
      and "lastBy idOf E1 k = Some e"
    then show "firstBy idOf (loadServers (Storage t)) k = Some e"
      using loadServers_lookup [of t E1] by (simp add: map_add_def)
  qed
  show "importList now list prev = Inr R \<and> distinct (map idOf prev)
        \<and> scalarKeys prev \<and> scalarIds list \<longrightarrow> distinct (map idOf R)"
  proof
    assume h: "importList now list prev = Inr R \<and> distinct (map idOf prev)
        \<and> scalarKeys prev \<and> scalarIds list"
    then obtain cs where c: "cleaned now list = Inr cs" and m: "mergeServers prev cs = Inr R"
      by (auto simp: importList_def split: sum.splits)
    from mergeServers_ids(1) [OF m _ cleaned_ids [OF c]] h show "distinct (map idOf R)" by blast
  qed
  show "mergeServers prev cs = Inr R' \<and> distinct (map idOf prev) \<and> (\<forall>c \<in> set cs. truthy (idOf c))
        \<and> scalarKeys prev \<and> scalarKeys cs \<longrightarrow>
       distinct (map idOf R')
       \<and> (\<forall>k e. lastBy keyOf cs k = Some e \<longrightarrow> firstBy keyOf R' k = Some e)"
    using mergeServers_ids [of prev cs R'] by blast
  show "distinct (map idOf (addServer newS prev)) \<longleftrightarrow>
        idOf (spread newS) \<notin> set (map idOf prev) \<and> distinct (map idOf prev)"
    by (simp add: addServer_def)
qed

theorem store_ids_unique_witness:
  "distinct (map idOf (loadServers (stored [ex_mine, ex_old])))
   \<and> importList ex_clock [ex_noid_a, ex_x1] [ex_mine, ex_old] = Inr [ex_mine, ex_x1]
   \<and> distinct (map idOf [ex_mine, ex_x1])
   \<and> mergeServers [ex_mine, ex_old] [ex_x1, ex_x1_later] = Inr [ex_mine, ex_x1_later]
   \<and> firstBy keyOf [ex_mine, ex_x1_later] (Some (JStr ''x1'')) = Some ex_x1_later
   \<and> distinct (map idOf (addServer ex_custom [ex_mine, ex_old]))"
proof -
  let ?t = "\<lambda>k. if k = STORAGE_KEY then Some (Json (JArr [ex_mine, ex_old])) else None"
  have s: "scalarIds [ex_mine, ex_old] \<and> scalarKeys [ex_mine, ex_old] \<and> scalarIds [ex_noid_a, ex_x1]
      \<and> scalarKeys [ex_x1, ex_x1_later]"
    by (simp add: scalarIds_def scalarKeys_def idOf_def keyOf_def or_opt_def
        ex_mine_def ex_old_def ex_noid_a_def ex_x1_def ex_x1_later_def)
  have d: "distinct (map idOf [ex_mine, ex_old])"
    by (simp add: idOf_def ex_mine_def ex_old_def)
  have tr: "\<forall>c \<in> set [ex_x1, ex_x1_later]. truthy (idOf c)"
    by (simp add: idOf_def ex_x1_def ex_x1_later_def)
  have l: "lastBy keyOf [ex_x1, ex_x1_later] (Some (JStr ''x1'')) = Some ex_x1_later"
    by (simp add: lastBy_def keyed_def keyOf_def or_opt_def ex_x1_def ex_x1_later_def)
  have f: "idOf (spread ex_custom) \<notin> set (map idOf [ex_mine, ex_old])"
    by (simp add: idOf_def ex_custom_def ex_mine_def ex_old_def)
  have g: "\<forall>E1. getItem (Storage ?t) STORAGE_KEY = Inr (Some (Json (JArr E1))) \<longrightarrow> scalarIds E1"
    using s by auto
  have i: "importList ex_clock [ex_noid_a, ex_x1] [ex_mine, ex_old] = Inr [ex_mine, ex_x1]"
    by code_simp
  have m: "mergeServers [ex_mine, ex_old] [ex_x1, ex_x1_later] = Inr [ex_mine, ex_x1_later]"
    by code_simp
  note u = store_ids_unique [of "Storage ?t" ?t "[ex_mine, ex_old]" ex_clock "[ex_noid_a, ex_x1]"
      "[ex_mine, ex_old]" "[ex_mine, ex_x1]" "[ex_x1, ex_x1_later]" "[ex_mine, ex_x1_later]" ex_custom]
  have "distinct (map idOf (loadServers (Storage ?t)))" using u g by blast
  then have 1: "distinct (map idOf (loadServers (stored [ex_mine, ex_old])))"
    by (simp only: stored_def)
  have 2: "distinct (map idOf [ex_mine, ex_x1])" using u i d s by blast
  have 3: "firstBy keyOf [ex_mine, ex_x1_later] (Some (JStr ''x1'')) = Some ex_x1_later"
    using u m d tr s l by blast
  have 4: "distinct (map idOf (addServer ex_custom [ex_mine, ex_old]))" using u f d by blast
  from 1 i 2 m 3 4 show ?thesis by blast
qed

section \<open>Importing and exporting\<close>

lemma cleanRecord_typed:
  assumes "typedEntry s"
  shows "\<exists>c. cleanRecord now i s = Inr c \<and> urlOf c = urlOf s
             \<and> field c ''community'' = Some (JBool True)"
proof -
  from assms obtain n u where n: "field s ''name'' = Some (JStr n)" and u: "field s ''url'' = Some (JStr u)"
    by (auto simp: typedEntry_def urlOf_def split: option.splits json.splits)
  from n have nn: "s \<noteq> JNull" by auto
  have nm: "\<exists>x. String_of (orElse (or_opt (Some (JStr n)) (Some (JStr u))) (JStr ''Unnamed'')) = Inr x"
    by (simp add: or_opt_def)
  then obtain x where x: "String_of (orElse (or_opt (Some (JStr n)) (Some (JStr u))) (JStr ''Unnamed'')) = Inr x" ..
  have uu: "String_of (orElse (Some (JStr u)) (JStr [])) = Inr u" by simp
  show ?thesis
    by (simp add: cleanRecord_def nn n u x uu urlOf_def map_add_def
        split: option.splits json.splits del: orElse.simps String_of.simps)
qed

lemma mapIndexed_all:
  "(\<forall>s \<in> set xs. \<forall>i. \<exists>c. f i s = Inr c \<and> P s c) \<Longrightarrow>
   \<exists>cs. mapIndexed f i xs = Inr cs \<and> list_all2 P xs cs"
proof (induction xs arbitrary: i)
  case Nil
  show ?case by simp
next
  case (Cons x xs)
  from Cons.prems obtain c where c: "f i x = Inr c" and p: "P x c" by (meson list.set_intros(1))
  have "\<forall>s \<in> set xs. \<forall>i. \<exists>c. f i s = Inr c \<and> P s c" using Cons.prems by (meson list.set_intros(2))
  from Cons.IH [OF this, of "Suc i"] obtain cs where cs: "mapIndexed f (Suc i) xs = Inr cs"
    and l: "list_all2 P xs cs" by blast
  have "mapIndexed f i (x # xs) = Inr (c # cs)" by (simp add: c cs)
  with p l show ?case by auto
qed

lemma cleaned_typed:
  assumes "\<forall>e \<in> set entries. typedEntry e"
  shows "\<exists>out. cleaned now entries = Inr out
           \<and> map urlOf out = filter wssAddress (map urlOf entries)
           \<and> (\<forall>c \<in> set out. field c ''community'' = Some (JBool True))"
proof -
  let ?P = "\<lambda>s c. urlOf c = urlOf s \<and> field c ''community'' = Some (JBool True)"
  have "\<forall>s \<in> set entries. \<forall>i. \<exists>c. cleanRecord now i s = Inr c \<and> ?P s c"
    using assms cleanRecord_typed by blast
  from mapIndexed_all [OF this, of 0] obtain cs
    where cs: "mapIndexed (cleanRecord now) 0 entries = Inr cs" and l: "list_all2 ?P entries cs"
    by blast
  from l have urls: "map urlOf cs = map urlOf entries"
    by (induction rule: list_all2_induct) simp_all
  from l have comm: "\<forall>c \<in> set cs. field c ''community'' = Some (JBool True)"
    by (induction rule: list_all2_induct) simp_all
  have "map urlOf (filter wssUrl cs) = filter wssAddress (map urlOf cs)"
    by (induction cs) (simp_all add: wssUrl_def)
  with urls comm cs show ?thesis by (simp add: cleaned_def)
qed

text \<open>
  What the sanitising step keeps starts with \<^verbatim>\<open>wss://\<close>, and the number in the toast is
  the length of the parsed input whatever was kept.
\<close>

lemma cleaned_keeps_only_wss: "cleaned now list = Inr cs \<Longrightarrow> list_all wssUrl cs"
  by (auto simp: cleaned_def list_all_iff split: sum.splits)

lemma import_toast_counts_input:
  "onImportFile now (Json (JArr parsed)) servers = (servers', Imported n) \<Longrightarrow> n = length parsed"
  by (auto simp: onImportFile_def split: sum.splits)

text \<open>
  Claim C4. At the input of the specification's scenario, one record with the address
  \<^verbatim>\<open>ftp://nope\<close>, the sanitising step drops the record without an error, and the handler
  then reports the length of the parsed input, one, in its toast, where no record
  survived.
\<close>

theorem import_reports_input_length:
  "decode ex_clock (Json (JArr [ex_bad])) = Inr []
   \<and> onImportFile ex_clock (Json (JArr [ex_bad])) [ex_mine] = ([ex_mine], Imported 1)"
  by code_simp

text \<open>
  Claim C8, as stated, fails: an entry whose address does not start with \<^verbatim>\<open>wss://\<close> is
  exported and dropped on import, so its address is lost.
\<close>

theorem export_import_counterexample:
  "typedEntry ex_old \<and> decode ex_clock (encode [ex_old]) = Inr []
   \<and> set (map urlOf []) \<noteq> set (map urlOf [ex_old])"
  by code_simp

text \<open>
  Claim C8, amended. For entries typed as \<^verbatim>\<open>ServerItem\<close> (name and address are strings),
  importing what was exported succeeds and yields, in order, exactly the addresses that
  start with \<^verbatim>\<open>wss://\<close>; every imported entry is marked \<^verbatim>\<open>community\<close>. So the set of
  addresses is reproduced when every address starts with \<^verbatim>\<open>wss://\<close>.
\<close>

theorem export_import_addresses:
  "(\<forall>e \<in> set entries. typedEntry e) \<longrightarrow>
     (\<exists>out. decode now (encode entries) = Inr out
        \<and> map urlOf out = filter wssAddress (map urlOf entries)
        \<and> (\<forall>c \<in> set out. field c ''community'' = Some (JBool True))
        \<and> ((\<forall>e \<in> set entries. wssUrl e) \<longrightarrow> set (map urlOf out) = set (map urlOf entries)))"
proof
  assume "\<forall>e \<in> set entries. typedEntry e"
  from cleaned_typed [OF this, of now] obtain out where o: "cleaned now entries = Inr out"
    and u: "map urlOf out = filter wssAddress (map urlOf entries)"
    and c: "\<forall>c \<in> set out. field c ''community'' = Some (JBool True)" by blast
  have d: "decode now (encode entries) = Inr out"
    by (simp add: decode_def encode_def JSON_stringify_def o)
  have "(\<forall>e \<in> set entries. wssUrl e) \<longrightarrow> set (map urlOf out) = set (map urlOf entries)"
  proof
    assume "\<forall>e \<in> set entries. wssUrl e"
    then have "filter wssAddress (map urlOf entries) = map urlOf entries"
      by (induction entries) (simp_all add: wssUrl_def)
    with u show "set (map urlOf out) = set (map urlOf entries)" by simp
  qed
  with d u c show "\<exists>out. decode now (encode entries) = Inr out
        \<and> map urlOf out = filter wssAddress (map urlOf entries)
        \<and> (\<forall>c \<in> set out. field c ''community'' = Some (JBool True))
        \<and> ((\<forall>e \<in> set entries. wssUrl e) \<longrightarrow> set (map urlOf out) = set (map urlOf entries))"
    by blast
qed

theorem export_import_addresses_witness:
  "\<exists>out. decode ex_clock (encode [ex_mine, ex_x1]) = Inr out
      \<and> set (map urlOf out) = set (map urlOf [ex_mine, ex_x1])"
proof -
  have t: "\<forall>e \<in> set [ex_mine, ex_x1]. typedEntry e"
    by (simp add: typedEntry_def urlOf_def ex_mine_def ex_x1_def)
  have w: "\<forall>e \<in> set [ex_mine, ex_x1]. wssUrl e"
    by (simp add: wssUrl_def wssAddress_def test_wss_def urlOf_def ex_mine_def ex_x1_def)
  from export_import_addresses [of "[ex_mine, ex_x1]" ex_clock] t w show ?thesis by blast
qed

section \<open>Filtering and sorting\<close>

lemma includes_str_sublist: "includes_str hay needle \<longleftrightarrow> sublist needle hay"
  by (induction hay) (simp_all add: sublist_Cons_right)

lemma lowerChar_capital:
  "65 \<le> m \<Longrightarrow> m \<le> 90 \<Longrightarrow> lowerChar (char_of (m::nat)) = char_of (m + 32)"
proof -
  assume m: "65 \<le> m" "m \<le> 90"
  then have "m mod 256 = m" by simp
  then have "(of_char (char_of m :: char) :: nat) = m" by (simp add: of_char_of)
  with m show ?thesis by (simp add: lowerChar_def Let_def del: of_char_of)
qed

lemma lower_upper_char: "lowerChar (upperChar c) = lowerChar c"
proof (cases "97 \<le> (of_char c :: nat) \<and> (of_char c :: nat) \<le> 122")
  case True
  then have u: "upperChar c = char_of ((of_char c :: nat) - 32)" by (simp add: upperChar_def Let_def)
  have r: "65 \<le> (of_char c :: nat) - 32" "(of_char c :: nat) - 32 \<le> 90" using True by arith+
  have restore: "(of_char c :: nat) - 32 + 32 = of_char c" using True by arith
  have "lowerChar (upperChar c) = char_of ((of_char c :: nat) - 32 + 32)"
    unfolding u by (rule lowerChar_capital [OF r])
  also have "\<dots> = c" unfolding restore by simp
  also have "\<dots> = lowerChar c" using True by (simp add: lowerChar_def Let_def)
  finally show ?thesis .
next
  case False
  then have "upperChar c = c" by (auto simp: upperChar_def Let_def)
  then show ?thesis by simp
qed

lemma lower_upper: "toLowerCase (toUpperCase s) = toLowerCase s"
  by (simp add: toLowerCase_def toUpperCase_def lower_upper_char)

lemma matchesQ_sublist:
  "matchesQ s q \<longleftrightarrow> sublist (toLowerCase q) (toLowerCase (name s @ '' '' @ url s))"
  by (simp add: matchesQ_def includes_str_sublist)

lemma matchesQ_empty: "matchesQ s []"
  by (simp add: matchesQ_sublist toLowerCase_def)

lemma matchesQ_upper_name: "matchesQ s (toUpperCase (name s))"
proof -
  have "toLowerCase (name s @ '' '' @ url s) = toLowerCase (name s) @ toLowerCase ('' '' @ url s)"
    by (simp add: toLowerCase_def)
  then show ?thesis
    unfolding matchesQ_sublist lower_upper by (simp only: sublist_append_rightI)
qed

lemma mset_insertBy: "mset (insertBy cmp x ys) = add_mset x (mset ys)"
  by (induction ys) simp_all

lemma mset_sortBy: "mset (sortBy cmp xs) = mset xs"
  by (induction xs) (simp_all add: sortBy_def mset_insertBy)

lemma set_sortBy: "set (sortBy cmp xs) = set xs"
  using mset_sortBy [of cmp xs] by (metis set_mset_mset)

lemma filtered_set: "set (filtered lc servers q selected sortKey) = set (candidates servers q selected)"
  by (simp add: filtered_def candidates_def Let_def set_sortBy)

lemma insertBy_descending: "insertBy (\<lambda>a b. k b - k a) = insort_key (\<lambda>s. - k s)"
proof (intro ext)
  fix x :: 'a and ys :: "'a list"
  show "insertBy (\<lambda>a b. k b - k a) x ys = insort_key (\<lambda>s. - k s) x ys"
    by (induction ys) simp_all
qed

lemma sortBy_descending: "sortBy (\<lambda>a b. k b - k a) xs = sort_key (\<lambda>s. - k s) xs"
  by (simp add: sortBy_def sort_key_def insertBy_descending)

lemma filtered_votes:
  "filtered lc servers q selected ''votes'' =
     sort_key (\<lambda>s. - votesOr0 s) (candidates servers q selected)"
  by (simp add: filtered_def candidates_def Let_def sortBy_descending)

text \<open>
  Claim C7. With the sort key \<^verbatim>\<open>votes\<close> the view is a rearrangement of the entries that
  pass the filters in which the vote count, an absent one counting as zero, never
  increases from an entry to the next, and in which the entries of any one vote count
  stand in the order they have in the store.
\<close>

theorem filtered_votes_descending_stable:
  "mset (filtered lc servers q selected ''votes'') = mset (candidates servers q selected)
   \<and> (\<forall>i. Suc i < length (filtered lc servers q selected ''votes'') \<longrightarrow>
        votesOr0 (filtered lc servers q selected ''votes'' ! i)
          \<ge> votesOr0 (filtered lc servers q selected ''votes'' ! Suc i))
   \<and> (\<forall>v. filter (\<lambda>s. votesOr0 s = v) (filtered lc servers q selected ''votes'')
          = filter (\<lambda>s. votesOr0 s = v) (candidates servers q selected))"
proof (intro conjI allI impI)
  let ?out = "filtered lc servers q selected ''votes''"
  let ?cand = "candidates servers q selected"
  show "mset ?out = mset ?cand" by (simp add: filtered_votes)
  have sorted: "sorted (map (\<lambda>s. - votesOr0 s) ?out)"
    unfolding filtered_votes by (rule sorted_sort_key)
  {
    fix i assume i: "Suc i < length ?out"
    have "map (\<lambda>s. - votesOr0 s) ?out ! i \<le> map (\<lambda>s. - votesOr0 s) ?out ! Suc i"
      by (rule sorted_nth_mono [OF sorted]) (use i in simp_all)
    with i show "votesOr0 (?out ! Suc i) \<le> votesOr0 (?out ! i)" by simp
  }
  {
    fix v
    have "filter (\<lambda>s. - votesOr0 s = - v) (sort_key (\<lambda>s. - votesOr0 s) ?cand)
        = filter (\<lambda>s. - votesOr0 s = - v) ?cand"
      by (rule sort_key_stable)
    then show "filter (\<lambda>s. votesOr0 s = v) ?out = filter (\<lambda>s. votesOr0 s = v) ?cand"
      by (simp add: filtered_votes)
  }
qed

theorem filtered_votes_descending_stable_witness:
  "filtered ex_compare [ex_voted ''a'' 1, ex_nexo, ex_voted ''b'' 3, ex_voted ''c'' 1, ex_voted ''d'' 3]
      [] [] ''votes''
     = [ex_voted ''b'' 3, ex_voted ''d'' 3, ex_voted ''a'' 1, ex_voted ''c'' 1, ex_nexo]
   \<and> votesOr0 (filtered ex_compare
        [ex_voted ''a'' 1, ex_nexo, ex_voted ''b'' 3, ex_voted ''c'' 1, ex_voted ''d'' 3]
        [] [] ''votes'' ! 3)
      \<ge> votesOr0 (filtered ex_compare
        [ex_voted ''a'' 1, ex_nexo, ex_voted ''b'' 3, ex_voted ''c'' 1, ex_voted ''d'' 3]
        [] [] ''votes'' ! Suc 3)"
proof -
  let ?servers = "[ex_voted ''a'' 1, ex_nexo, ex_voted ''b'' 3, ex_voted ''c'' 1, ex_voted ''d'' 3]"
  have e: "filtered ex_compare ?servers [] [] ''votes''
     = [ex_voted ''b'' 3, ex_voted ''d'' 3, ex_voted ''a'' 1, ex_voted ''c'' 1, ex_nexo]"
    by code_simp
  then have l: "Suc 3 < length (filtered ex_compare ?servers [] [] ''votes'')" by simp
  from filtered_votes_descending_stable [of ex_compare ?servers "[]" "[]"] l
  have "votesOr0 (filtered ex_compare ?servers [] [] ''votes'' ! 3)
      \<ge> votesOr0 (filtered ex_compare ?servers [] [] ''votes'' ! Suc 3)"
    by blast
  with e show ?thesis by blast
qed

text \<open>
  Claim C5, as stated, fails in both directions: the program searches the name, one
  space and the address, not the name directly followed by the address. A query that
  runs from the end of the name into the address is contained in their concatenation and
  does not pass; a query of one space passes an entry whose name and address hold none.
\<close>

theorem text_filter_counterexample:
  "sublist (toLowerCase ''xwss'') (toLowerCase (name ex_nexo @ url ex_nexo))
   \<and> ex_nexo \<notin> set (filtered ex_compare [ex_nexo] ''xwss'' [] ''name'')
   \<and> \<not> sublist (toLowerCase '' '') (toLowerCase (name ex_nexo @ url ex_nexo))
   \<and> ex_nexo \<in> set (filtered ex_compare [ex_nexo] '' '' [] ''name'')"
  by code_simp

text \<open>
  Claim C5, amended. An entry of the store is in the view exactly when the lower-cased
  query is a substring of the lower-cased text made of the name, one space and the
  address, and the entry carries every selected tag. The empty query passes every entry.
  A query equal to the upper-cased name of an entry passes that entry (for names of ASCII
  characters, where the case conversions are those of the platform).
\<close>

theorem text_filter:
  "(s \<in> set (filtered lc servers q selected sortKey) \<longleftrightarrow>
      s \<in> set servers \<and> sublist (toLowerCase q) (toLowerCase (name s @ '' '' @ url s))
      \<and> matchesTags s selected)
   \<and> set (filtered lc servers [] [] sortKey) = set servers
   \<and> (s \<in> set servers \<and> ascii (name s) \<longrightarrow>
        s \<in> set (filtered lc servers (toUpperCase (name s)) [] sortKey))"
proof (intro conjI impI)
  show "s \<in> set (filtered lc servers q selected sortKey) \<longleftrightarrow>
      s \<in> set servers \<and> sublist (toLowerCase q) (toLowerCase (name s @ '' '' @ url s))
      \<and> matchesTags s selected"
    by (simp add: filtered_set candidates_def matchesQ_sublist)
  show "set (filtered lc servers [] [] sortKey) = set servers"
    by (simp add: filtered_set candidates_def matchesQ_empty matchesTags_def)
  assume "s \<in> set servers \<and> ascii (name s)"
  then show "s \<in> set (filtered lc servers (toUpperCase (name s)) [] sortKey)"
    by (simp add: filtered_set candidates_def matchesQ_upper_name matchesTags_def)
qed

theorem text_filter_witness:
  "ex_nexo \<in> set (filtered ex_compare [ex_nexo] ''NEXOX'' [] ''source'')"
proof -
  have a: "ex_nexo \<in> set [ex_nexo] \<and> ascii (name ex_nexo)" by code_simp
  have u: "toUpperCase (name ex_nexo) = ''NEXOX''" by code_simp
  from text_filter [of ex_nexo ex_compare "[ex_nexo]" "[]" "[]" "''source''"] a
  have "ex_nexo \<in> set (filtered ex_compare [ex_nexo] (toUpperCase (name ex_nexo)) [] ''source'')"
    by blast
  then show ?thesis by (simp only: u)
qed

section \<open>The quick status check reports once\<close>

lemma deliver_settled: "settled p \<Longrightarrow> settled (deliver p e) \<and> toasts (deliver p e) = toasts p"
  by (cases e) (auto simp: settled_def)

lemma run_settled: "settled p \<Longrightarrow> settled (run p evs) \<and> toasts (run p evs) = toasts p"
proof (induction evs arbitrary: p)
  case Nil
  then show ?case by (simp add: run_def)
next
  case (Cons e evs)
  from Cons.prems have s: "settled (deliver p e)" and t: "toasts (deliver p e) = toasts p"
    using deliver_settled by blast+
  from Cons.IH [OF s] t show ?case by (simp add: run_def)
qed

lemma run_append: "run p (evs @ later) = run (run p evs) later"
  by (simp add: run_def)

lemma first_event: "settled (deliver (quickPing True s) e) \<and> toasts (deliver (quickPing True s) e) = [outcome e]"
  by (cases e) (simp_all add: quickPing_def settled_def)

lemma failed_settled: "settled (quickPing False s) \<and> toasts (quickPing False s) = [ConstructionFailed]"
  by (simp add: quickPing_def settled_def)

lemma run_first:
  "settled (run (quickPing True s) (e # es)) \<and> toasts (run (quickPing True s) (e # es)) = [outcome e]"
proof -
  have r: "run (quickPing True s) (e # es) = run (deliver (quickPing True s) e) es"
    by (simp add: run_def)
  have f: "settled (deliver (quickPing True s) e)"
    and t: "toasts (deliver (quickPing True s) e) = [outcome e]"
    using first_event by blast+
  from run_settled [OF f, of es] t show ?thesis
    unfolding r by (simp only:) 
qed

lemma run_constructed:
  "toasts (run (quickPing True s) evs) = (case evs of [] \<Rightarrow> [] | e # es \<Rightarrow> [outcome e])"
proof (cases evs)
  case Nil
  then show ?thesis by (simp add: run_def quickPing_def)
next
  case (Cons e es)
  then show ?thesis using run_first [of s e es] by (simp only: list.case)
qed

lemma settled_after:
  "evs \<noteq> [] \<or> \<not> c \<Longrightarrow> settled (run (quickPing c s) evs)"
proof (cases c)
  case False
  then have c: "c = False" by simp
  show ?thesis unfolding c using failed_settled [of s] run_settled [of "quickPing False s" evs]
    by (simp only:)
next
  case True
  then have c: "c = True" by simp
  assume "evs \<noteq> [] \<or> \<not> c"
  with c obtain e es where evs: "evs = e # es" by (cases evs) simp_all
  show ?thesis unfolding c evs using run_first [of s e es] by (simp only:)
qed

text \<open>
  Claim C3. Every invocation of \<^verbatim>\<open>quickPing\<close> shows at most one status toast, whatever
  events follow. When the socket was constructed, the first event to arrive (open, error
  or the timer) decides the status that is shown; when the constructor threw, the
  construction failure is the one status shown. Once a status is shown, later events
  change nothing. As long as no status is shown the timer is pending, and its expiry
  shows the time-out: a check does not end without a status.
\<close>

theorem quickPing_one_terminal:
  "length (toasts (run (quickPing c s) evs)) \<le> 1
   \<and> (c \<and> evs \<noteq> [] \<longrightarrow> toasts (run (quickPing c s) evs) = [outcome (hd evs)])
   \<and> (\<not> c \<longrightarrow> toasts (run (quickPing c s) evs) = [ConstructionFailed])
   \<and> (toasts (run (quickPing c s) evs) \<noteq> [] \<longrightarrow>
        toasts (run (quickPing c s) (evs @ later)) = toasts (run (quickPing c s) evs))
   \<and> (toasts (run (quickPing c s) evs) = [] \<longrightarrow>
        timerPending (run (quickPing c s) evs)
        \<and> toasts (deliver (run (quickPing c s) evs) TimerFired) = [TimedOut])"
proof (intro conjI impI)
  show "length (toasts (run (quickPing c s) evs)) \<le> 1"
  proof (cases c)
    case True
    then show ?thesis using run_constructed [of s evs] by (cases evs) simp_all
  next
    case False
    then show ?thesis using failed_settled [of s] run_settled [of "quickPing False s" evs] by simp
  qed
next
  assume "c \<and> evs \<noteq> []"
  then show "toasts (run (quickPing c s) evs) = [outcome (hd evs)]"
    using run_constructed [of s evs] by (cases evs) simp_all
next
  assume "\<not> c"
  then show "toasts (run (quickPing c s) evs) = [ConstructionFailed]"
    using failed_settled [of s] run_settled [of "quickPing False s" evs] by simp
next
  assume ne: "toasts (run (quickPing c s) evs) \<noteq> []"
  have "evs \<noteq> [] \<or> \<not> c"
  proof (rule ccontr)
    assume "\<not> (evs \<noteq> [] \<or> \<not> c)"
    then have "evs = []" "c" by simp_all
    with ne show False by (simp add: run_def quickPing_def)
  qed
  then have "settled (run (quickPing c s) evs)" by (rule settled_after)
  then have "toasts (run (run (quickPing c s) evs) later) = toasts (run (quickPing c s) evs)"
    using run_settled by blast
  then show "toasts (run (quickPing c s) (evs @ later)) = toasts (run (quickPing c s) evs)"
    by (simp only: run_append)
next
  assume e: "toasts (run (quickPing c s) evs) = []"
  have start: "c = True \<and> evs = []"
  proof (rule ccontr)
    assume "\<not> (c = True \<and> evs = [])"
    then have "evs \<noteq> [] \<and> c \<or> \<not> c" by blast
    then show False
    proof
      assume "evs \<noteq> [] \<and> c"
      then obtain ev es where "evs = ev # es" and "c = True" by (cases evs) simp_all
      with run_first [of s ev es] e show False by simp
    next
      assume "\<not> c"
      then have "c = False" by simp
      with failed_settled [of s] run_settled [of "quickPing False s" evs] e show False by simp
    qed
  qed
  then have r: "run (quickPing c s) evs = quickPing True s" by (simp add: run_def)
  show "timerPending (run (quickPing c s) evs)" unfolding r by (simp add: quickPing_def)
  show "toasts (deliver (run (quickPing c s) evs) TimerFired) = [TimedOut]"
    unfolding r by (simp add: quickPing_def)
qed

theorem quickPing_one_terminal_witness:
  "toasts (run (quickPing True (JObj [(''id'', JStr ''zelz'')])) [TimerFired, Error, Open]) = [TimedOut]
   \<and> toasts (run (quickPing True (JObj [(''id'', JStr ''zelz'')])) ([TimerFired] @ [Open])) = [TimedOut]
   \<and> toasts (run (quickPing False (JObj [(''id'', JStr ''zelz'')])) [TimerFired]) = [ConstructionFailed]"
  using quickPing_one_terminal [of True "JObj [(''id'', JStr ''zelz'')]" "[TimerFired, Error, Open]" "[]"]
        quickPing_one_terminal [of True "JObj [(''id'', JStr ''zelz'')]" "[TimerFired]" "[Open]"]
        quickPing_one_terminal [of False "JObj [(''id'', JStr ''zelz'')]" "[TimerFired]" "[]"]
  by simp

end
